theory Spec2Isabelle
  imports Main
begin

section \<open>JavaScript strings and the regular expressions of livePreview.ts\<close>

text \<open>
  A JavaScript string is a sequence of UTF-16 code units; a code unit is modelled as a
  natural number, so that offsets into a string count what the editor's offsets count.
  \<open>js\<close> embeds an ASCII literal.
\<close>

type_synonym jsstring = "nat list"

definition js :: "string \<Rightarrow> jsstring" where
  "js s = map of_char s"

abbreviation ch_tab :: nat where "ch_tab \<equiv> 9"
abbreviation ch_lf :: nat where "ch_lf \<equiv> 10"
abbreviation ch_cr :: nat where "ch_cr \<equiv> 13"
abbreviation ch_space :: nat where "ch_space \<equiv> 32"
abbreviation ch_dquote :: nat where "ch_dquote \<equiv> 34"
abbreviation ch_squote :: nat where "ch_squote \<equiv> 39"
abbreviation ch_rparen :: nat where "ch_rparen \<equiv> 41"
abbreviation ch_comma :: nat where "ch_comma \<equiv> 44"
abbreviation ch_slash :: nat where "ch_slash \<equiv> 47"
abbreviation ch_colon :: nat where "ch_colon \<equiv> 58"
abbreviation ch_semi :: nat where "ch_semi \<equiv> 59"
abbreviation ch_lt :: nat where "ch_lt \<equiv> 60"
abbreviation ch_eq :: nat where "ch_eq \<equiv> 61"
abbreviation ch_gt :: nat where "ch_gt \<equiv> 62"
abbreviation ch_lbrace :: nat where "ch_lbrace \<equiv> 123"
abbreviation ch_rbrace :: nat where "ch_rbrace \<equiv> 125"

text \<open>
  The class \<open>\s\<close> of a JavaScript regular expression, which is also the set that
  \<open>String.prototype.trim\<close> strips: the white space code points and the line
  terminators.
\<close>

definition is_ws :: "nat \<Rightarrow> bool" where
  "is_ws c \<longleftrightarrow>
     c \<in> {9, 10, 11, 12, 13, 32, 160, 5760, 8232, 8233, 8239, 8287, 12288, 65279}
     \<or> (8192 \<le> c \<and> c \<le> 8202)"

text \<open>The line terminators, which \<open>.\<close> does not match.\<close>

definition is_line_terminator :: "nat \<Rightarrow> bool" where
  "is_line_terminator c \<longleftrightarrow> c \<in> {10, 13, 8232, 8233}"

definition is_quote :: "nat \<Rightarrow> bool" where
  "is_quote c \<longleftrightarrow> c = ch_dquote \<or> c = ch_squote"

text \<open>The class \<open>[a-zA-Z0-9\-_]\<close>.\<close>

definition is_simple :: "nat \<Rightarrow> bool" where
  "is_simple c \<longleftrightarrow>
     (97 \<le> c \<and> c \<le> 122) \<or> (65 \<le> c \<and> c \<le> 90) \<or> (48 \<le> c \<and> c \<le> 57) \<or> c = 45 \<or> c = 95"

definition starts_with :: "jsstring \<Rightarrow> jsstring \<Rightarrow> bool" where
  "starts_with p s \<longleftrightarrow> take (length p) s = p"

text \<open>
  Matching under the flag \<open>i\<close> compares canonicalised code units; against the ASCII
  letters of the patterns used here that is ASCII upper-casing.
\<close>

definition upper :: "nat \<Rightarrow> nat" where
  "upper c = (if 97 \<le> c \<and> c \<le> 122 then c - 32 else c)"

definition starts_with_ci :: "jsstring \<Rightarrow> jsstring \<Rightarrow> bool" where
  "starts_with_ci p s \<longleftrightarrow> map upper (take (length p) s) = map upper p"

text \<open>
  The position of the first suffix that satisfies \<open>P\<close>: what a lazy \<open>[\s\S]*?\<close>
  in front of a literal finds.
\<close>

fun index_of :: "(jsstring \<Rightarrow> bool) \<Rightarrow> jsstring \<Rightarrow> nat option" where
  "index_of P [] = (if P [] then Some 0 else None)"
| "index_of P (c # cs) = (if P (c # cs) then Some 0 else map_option Suc (index_of P cs))"

text \<open>
  \<open>s.replace(/re/g, r)\<close>: the expression is tried at each position from the left; on a
  match of \<open>n\<close> code units the replacement is emitted and the scan goes on behind the
  match, otherwise the code unit is copied. A matcher is the expression tried at the
  head of its argument: it returns the replacement and the length of the match. Every
  expression of this file matches at least one code unit.
\<close>

type_synonym matcher = "jsstring \<Rightarrow> (jsstring \<times> nat) option"

fun replace_all :: "matcher \<Rightarrow> jsstring \<Rightarrow> jsstring" where
  "replace_all m [] = []"
| "replace_all m (c # cs) =
     (case m (c # cs) of
        None \<Rightarrow> c # replace_all m cs
      | Some (rep, n) \<Rightarrow> rep @ replace_all m (drop (n - 1) cs))"

text \<open>\<open>s.replace(/re/, r)\<close> without the flag \<open>g\<close>: the leftmost match only.\<close>

fun replace_first :: "matcher \<Rightarrow> jsstring \<Rightarrow> jsstring" where
  "replace_first m [] = []"
| "replace_first m (c # cs) =
     (case m (c # cs) of
        None \<Rightarrow> c # replace_first m cs
      | Some (rep, n) \<Rightarrow> rep @ drop (n - 1) cs)"

text \<open>
  \<open>String.prototype.trim\<close>, and also \<open>.replace(/^\s+|\s+$/g, "")\<close>: the first
  alternative matches the leading run of white space, the second the trailing one.
\<close>

definition js_trim :: "jsstring \<Rightarrow> jsstring" where
  "js_trim s = rev (dropWhile is_ws (rev (dropWhile is_ws s)))"

subsection \<open>The expressions of minifyHTML, in the order of the source\<close>

text \<open>\<open>/<!--[\s\S]*?-->/\<close>\<close>

definition m_comment :: matcher where
  "m_comment s =
     (if starts_with (js ''<!--'') s then
        (case index_of (starts_with (js ''-->'')) (drop 4 s) of
           None \<Rightarrow> None
         | Some k \<Rightarrow> Some ([], 4 + k + 3))
      else None)"

text \<open>\<open>/[\r\n]+/\<close>\<close>

definition m_newlines :: matcher where
  "m_newlines s =
     (let r = takeWhile (\<lambda>c. c = ch_cr \<or> c = ch_lf) s
      in if r = [] then None else Some ([], length r))"

text \<open>\<open>/\t/\<close>\<close>

definition m_tab :: matcher where
  "m_tab s = (case s of [] \<Rightarrow> None | c # _ \<Rightarrow> if c = ch_tab then Some ([], 1) else None)"

text \<open>\<open>/>\s+</\<close>, replaced by \<open>"><"\<close>\<close>

definition m_between_tags :: matcher where
  "m_between_tags s =
     (case s of
        [] \<Rightarrow> None
      | c # r \<Rightarrow>
          if c = ch_gt then
            (let w = takeWhile is_ws r
             in if w \<noteq> [] \<and> starts_with [ch_lt] (drop (length w) r)
                then Some (js ''><'', 1 + length w + 1) else None)
          else None)"

text \<open>\<open>/\s{2,}/\<close>, replaced by one space\<close>

definition m_spaces :: matcher where
  "m_spaces s =
     (let w = takeWhile is_ws s
      in if 2 \<le> length w then Some ([ch_space], length w) else None)"

text \<open>
  \<open>/\s*x\s*/\<close> for a single character \<open>x\<close>, replaced by \<open>x\<close>: used for
  \<open>=\<close>, \<open><\<close>, \<open>>\<close> and, in the style sheets, for \<open>{ } ; : ,\<close>.
\<close>

definition m_around :: "nat \<Rightarrow> matcher" where
  "m_around x s =
     (let a = takeWhile is_ws s
      in case drop (length a) s of
           [] \<Rightarrow> None
         | c # r \<Rightarrow>
             if c = x then Some ([x], length a + 1 + length (takeWhile is_ws r)) else None)"

subsection \<open>The callback for style elements\<close>

text \<open>\<open>/\/\*[\s\S]*?\*\//\<close>\<close>

definition m_css_comment :: matcher where
  "m_css_comment s =
     (if starts_with (js ''/*'') s then
        (case index_of (starts_with (js ''*/'')) (drop 2 s) of
           None \<Rightarrow> None
         | Some k \<Rightarrow> Some ([], 2 + k + 2))
      else None)"

text \<open>\<open>/;\s*}/\<close>, replaced by \<open>}\<close>\<close>

definition m_semi_brace :: matcher where
  "m_semi_brace s =
     (case s of
        [] \<Rightarrow> None
      | c # r \<Rightarrow>
          if c = ch_semi then
            (let b = takeWhile is_ws r
             in case drop (length b) r of
                  [] \<Rightarrow> None
                | d # _ \<Rightarrow> if d = ch_rbrace then Some ([ch_rbrace], 1 + length b + 1) else None)
          else None)"

text \<open>\<open>/[\r\n\t]/\<close>\<close>

definition m_nl_tab :: matcher where
  "m_nl_tab s =
     (case s of
        [] \<Rightarrow> None
      | c # _ \<Rightarrow> if c = ch_cr \<or> c = ch_lf \<or> c = ch_tab then Some ([], 1) else None)"

text \<open>The body of the callback, applied to the captured style sheet \<open>css\<close>.\<close>

definition minifyCSS :: "jsstring \<Rightarrow> jsstring" where
  "minifyCSS css =
     (let c1 = replace_all m_css_comment css;
          c2 = replace_all (m_around ch_lbrace) c1;
          c3 = replace_all (m_around ch_rbrace) c2;
          c4 = replace_all (m_around ch_semi) c3;
          c5 = replace_all (m_around ch_colon) c4;
          c6 = replace_all (m_around ch_comma) c5;
          c7 = replace_all m_semi_brace c6;
          c8 = replace_all m_nl_tab c7;
          c9 = replace_all m_spaces c8
      in js_trim c9)"

text \<open>
  \<open>/<style[^>]*>([\s\S]*?)<\/style>/gi\<close>: the greedy \<open>[^>]*\<close> ends at the first
  \<open>>\<close>, the lazy group at the first closing tag behind it; the match is replaced by
  the style element without attributes around the minified sheet.
\<close>

definition m_style_tag :: matcher where
  "m_style_tag s =
     (if starts_with_ci (js ''<style'') s then
        (let t = drop 6 s;
             a = takeWhile (\<lambda>c. c \<noteq> ch_gt) t
         in case drop (length a) t of
              [] \<Rightarrow> None
            | _ # body \<Rightarrow>
                (case index_of (starts_with_ci (js ''</style>'')) body of
                   None \<Rightarrow> None
                 | Some k \<Rightarrow>
                     Some (js ''<style>'' @ minifyCSS (take k body) @ js ''</style>'',
                           6 + length a + 1 + k + 8)))
      else None)"

subsection \<open>The callback for inline style attributes\<close>

text \<open>\<open>/;\s*$/\<close>\<close>

definition m_trailing_semi :: matcher where
  "m_trailing_semi s =
     (case s of
        [] \<Rightarrow> None
      | c # r \<Rightarrow> if c = ch_semi \<and> list_all is_ws r then Some ([], 1 + length r) else None)"

definition minifyStyle :: "jsstring \<Rightarrow> jsstring" where
  "minifyStyle style =
     (let s1 = replace_all (m_around ch_semi) style;
          s2 = replace_all (m_around ch_colon) s1;
          s3 = replace_first m_trailing_semi s2;
          s4 = replace_all m_spaces s3
      in js_trim s4)"

text \<open>
  \<open>/style\s*=\s*["']([^"']*?)["']/gi\<close>, replaced by the attribute in double quotes
  around the minified value.
\<close>

definition m_style_attr :: matcher where
  "m_style_attr s =
     (if starts_with_ci (js ''style'') s then
        (let w1 = takeWhile is_ws (drop 5 s)
         in case drop (length w1) (drop 5 s) of
              [] \<Rightarrow> None
            | e # t \<Rightarrow>
                if e \<noteq> ch_eq then None
                else
                  (let w2 = takeWhile is_ws t
                   in case drop (length w2) t of
                        [] \<Rightarrow> None
                      | q # v \<Rightarrow>
                          if \<not> is_quote q then None
                          else
                            (let val = takeWhile (\<lambda>c. \<not> is_quote c) v
                             in case drop (length val) v of
                                  [] \<Rightarrow> None
                                | _ # _ \<Rightarrow>
                                    Some (js ''style='' @ [ch_dquote] @ minifyStyle val @ [ch_dquote],
                                          5 + length w1 + 1 + length w2 + 1 + length val + 1))))
      else None)"

subsection \<open>The last expressions\<close>

text \<open>\<open>/=["']([a-zA-Z0-9\-_]+)["']/\<close>, replaced by \<open>=$1\<close>\<close>

definition m_unquote :: matcher where
  "m_unquote s =
     (case s of
        e # q # t \<Rightarrow>
          if e = ch_eq \<and> is_quote q then
            (let v = takeWhile is_simple t
             in if v = [] then None
                else
                  (case drop (length v) t of
                     [] \<Rightarrow> None
                   | q2 # _ \<Rightarrow> if is_quote q2 then Some (ch_eq # v, 2 + length v + 1) else None))
          else None
      | _ \<Rightarrow> None)"

text \<open>\<open>/\s*\/\s*>/\<close>, replaced by \<open>/>\<close>\<close>

definition m_self_closing :: matcher where
  "m_self_closing s =
     (let a = takeWhile is_ws s
      in case drop (length a) s of
           [] \<Rightarrow> None
         | c # r \<Rightarrow>
             if c = ch_slash then
               (let b = takeWhile is_ws r
                in case drop (length b) r of
                     [] \<Rightarrow> None
                   | g # _ \<Rightarrow>
                       if g = ch_gt then Some (js ''/>'', length a + 1 + length b + 1) else None)
             else None)"

subsection \<open>minifyHTML\<close>

definition minifyHTML :: "jsstring \<Rightarrow> jsstring" where
  "minifyHTML html =
     (let h1 = replace_all m_comment html;
          h2 = replace_all m_newlines h1;
          h3 = replace_all m_tab h2;
          h4 = replace_all m_between_tags h3;
          h5 = js_trim h4;
          h6 = replace_all m_spaces h5;
          h7 = replace_all (m_around ch_eq) h6;
          h8 = replace_all (m_around ch_lt) h7;
          h9 = replace_all (m_around ch_gt) h8;
          h10 = replace_all m_style_tag h9;
          h11 = replace_all m_style_attr h10;
          h12 = replace_all m_unquote h11;
          h13 = replace_all m_self_closing h12
      in js_trim h13)"

section \<open>The editor: document, selection, syntax tree, decorations\<close>

text \<open>
  The document is the text of the editor with its lines joined by one line feed each, as
  \<open>sliceDoc\<close> returns it; an offset counts code units. \<open>lineAt\<close> is the library's
  \<open>Text.lineAt\<close>: the line around an offset, from its first code unit to its line break
  (or the end of the document), and a RangeError for an offset behind the document.
  \<open>sliceDoc\<close> is the library's \<open>EditorState.sliceDoc\<close>, which stops at the end of the
  document.
\<close>

datatype error = RangeError

record line =
  line_from :: nat
  line_to :: nat

definition lineAt :: "jsstring \<Rightarrow> nat \<Rightarrow> error + line" where
  "lineAt d pos =
     (if length d < pos then Inl RangeError
      else Inr \<lparr>line_from = pos - length (takeWhile (\<lambda>c. c \<noteq> ch_lf) (rev (take pos d))),
               line_to = pos + length (takeWhile (\<lambda>c. c \<noteq> ch_lf) (drop pos d))\<rparr>)"

definition sliceDoc :: "jsstring \<Rightarrow> nat \<Rightarrow> nat \<Rightarrow> jsstring" where
  "sliceDoc d a b = take (b - a) (drop a d)"

record selection_range =
  sel_from :: nat
  sel_to :: nat

record syntax_node =
  name :: string
  node_from :: nat
  node_to :: nat

datatype syntax_tree = Tree syntax_node "syntax_tree list"

text \<open>
  The library's \<open>Tree.iterate\<close> with a callback \<open>enter\<close> that never returns
  \<open>false\<close>: the nodes that touch the range, parents before children, children from
  left to right; the children of a node outside the range are not visited.
\<close>

fun iterate :: "syntax_tree \<Rightarrow> nat \<Rightarrow> nat \<Rightarrow> syntax_node list" where
  "iterate (Tree n cs) a b =
     (if node_from n \<le> b \<and> node_to n \<ge> a
      then n # concat (map (\<lambda>c. iterate c a b) cs)
      else [])"

record editor_state =
  doc :: jsstring
  syntaxTree :: syntax_tree
  selection_main :: selection_range

record editor_view =
  view_state :: editor_state
  visibleRanges :: "(nat \<times> nat) list"

datatype widget =
  HTMLWidget jsstring
| ImageWidget jsstring
| TextWidget jsstring
| BulletWidget

text \<open>
  One call of \<open>builder.add(from, to, Decoration.replace({widget}))\<close>; the builder is
  the sequence of the calls made so far, which \<open>finish\<close> returns. The library's
  builder refuses a range that starts before the one added last; that check is not part
  of the model, and the order it asks for is the subject of claim C1.
\<close>

record decoration =
  deco_from :: nat
  deco_to :: nat
  deco_widget :: "widget option"

type_synonym builder = "decoration list"

definition add :: "builder \<Rightarrow> nat \<Rightarrow> nat \<Rightarrow> widget option \<Rightarrow> builder" where
  "add b a z w = b @ [\<lparr>deco_from = a, deco_to = z, deco_widget = w\<rparr>]"

subsection \<open>The image pattern\<close>

text \<open>
  \<open>text.match(/^!\[(.*?)\]\((.*?)\)$/)\<close>. A lazy group first tries the rest of the
  expression at the current position and takes one more character (never a line
  terminator) when that fails. \<open>match_url\<close> is \<open>(.*?)\)$\<close>, \<open>match_alt\<close> is
  \<open>(.*?)\]\((.*?)\)$\<close>; the first argument is what the group holds so far.
\<close>

fun match_url :: "jsstring \<Rightarrow> jsstring \<Rightarrow> jsstring option" where
  "match_url acc [] = None"
| "match_url acc (c # cs) =
     (if c = ch_rparen \<and> cs = [] then Some acc
      else if is_line_terminator c then None
      else match_url (acc @ [c]) cs)"

fun match_alt :: "jsstring \<Rightarrow> jsstring \<Rightarrow> (jsstring \<times> jsstring) option" where
  "match_alt acc [] = None"
| "match_alt acc (c # cs) =
     (case (if starts_with (js '']('') (c # cs) then match_url [] (drop 1 cs) else None) of
        Some url \<Rightarrow> Some (acc, url)
      | None \<Rightarrow> if is_line_terminator c then None else match_alt (acc @ [c]) cs)"

definition image_match :: "jsstring \<Rightarrow> (jsstring \<times> jsstring) option" where
  "image_match text =
     (if starts_with (js ''!['') text then match_alt [] (drop 2 text) else None)"

subsection \<open>buildDecorations\<close>

text \<open>
  The part of \<open>enter\<close> behind the reveal logic: the chain of tests on the node's name,
  each adding at most one decoration.
\<close>

definition hideNode :: "jsstring \<Rightarrow> syntax_node \<Rightarrow> builder \<Rightarrow> builder" where
  "hideNode d node b =
     (if name node = ''HeaderMark'' then
        (let afterMark = sliceDoc d (node_to node) (node_to node + 1);
             replacementEnd = (if afterMark = js '' '' then node_to node + 1 else node_to node)
         in add b (node_from node) replacementEnd None)
      else if name node = ''EmphasisMark'' then add b (node_from node) (node_to node) None
      else if name node = ''CodeMark'' then add b (node_from node) (node_to node) None
      else if name node = ''ListMark'' then
        add b (node_from node) (node_to node) (Some BulletWidget)
      else if name node = ''Image'' then
        (case image_match (sliceDoc d (node_from node) (node_to node)) of
           Some (alt, url) \<Rightarrow>
             if alt = [] then add b (node_from node) (node_to node) (Some (ImageWidget url))
             else add b (node_from node) (node_to node) (Some (TextWidget alt))
         | None \<Rightarrow> b)
      else if name node = ''HTMLTag'' \<or> name node = ''HTMLBlock'' then
        add b (node_from node) (node_to node)
          (Some (HTMLWidget (minifyHTML (sliceDoc d (node_from node) (node_to node)))))
      else b)"

definition enter :: "editor_state \<Rightarrow> syntax_node \<Rightarrow> builder \<Rightarrow> error + builder" where
  "enter st node b =
     (case lineAt (doc st) (node_from node) of
        Inl e \<Rightarrow> Inl e
      | Inr nodeLine \<Rightarrow>
          (let isHTML = (name node = ''HTMLTag'' \<or> name node = ''HTMLBlock'');
               selection = selection_main st
           in if isHTML then
                (if sel_from selection \<le> node_to node \<and> sel_to selection \<ge> node_from node
                 then Inr b
                 else Inr (hideNode (doc st) node b))
              else
                (if sel_from selection \<le> line_to nodeLine \<and> sel_to selection \<ge> line_from nodeLine
                 then Inr b
                 else Inr (hideNode (doc st) node b))))"

text \<open>The callback over the nodes one call of \<open>iterate\<close> delivers.\<close>

fun enter_nodes :: "editor_state \<Rightarrow> syntax_node list \<Rightarrow> builder \<Rightarrow> error + builder" where
  "enter_nodes st [] b = Inr b"
| "enter_nodes st (n # ns) b =
     (case enter st n b of Inl e \<Rightarrow> Inl e | Inr b' \<Rightarrow> enter_nodes st ns b')"

text \<open>The loop over \<open>view.visibleRanges\<close>.\<close>

fun build_ranges :: "editor_state \<Rightarrow> (nat \<times> nat) list \<Rightarrow> builder \<Rightarrow> error + builder" where
  "build_ranges st [] b = Inr b"
| "build_ranges st ((a, z) # rs) b =
     (case enter_nodes st (iterate (syntaxTree st) a z) b of
        Inl e \<Rightarrow> Inl e
      | Inr b' \<Rightarrow> build_ranges st rs b')"

definition buildDecorations :: "editor_view \<Rightarrow> error + decoration list" where
  "buildDecorations view = build_ranges (view_state view) (visibleRanges view) []"


subsection \<open>Notions used to state the properties of a build\<close>

text \<open>The kinds of node for which \<open>enter\<close> can add a decoration.\<close>

definition decorated :: "syntax_node \<Rightarrow> bool" where
  "decorated n \<longleftrightarrow>
     name n \<in> {''HeaderMark'', ''EmphasisMark'', ''CodeMark'', ''ListMark'', ''Image'',
               ''HTMLTag'', ''HTMLBlock''}"

text \<open>The nodes handed to \<open>enter\<close> during one build, in the order of the calls.\<close>

definition visited :: "editor_view \<Rightarrow> syntax_node list" where
  "visited view =
     concat (map (\<lambda>(a, z). iterate (syntaxTree (view_state view)) a z) (visibleRanges view))"

fun root :: "syntax_tree \<Rightarrow> syntax_node" where
  "root (Tree n cs) = n"

text \<open>
  A tree as a parser builds it: a node's range is not reversed, its children lie inside
  it, from left to right, without overlap.
\<close>

fun well_formed :: "syntax_tree \<Rightarrow> bool" where
  "well_formed (Tree n cs) \<longleftrightarrow>
     node_from n \<le> node_to n
     \<and> (\<forall>c\<in>set cs. node_from n \<le> node_from (root c) \<and> node_to (root c) \<le> node_to n
                     \<and> well_formed c)
     \<and> sorted_wrt (\<lambda>c c'. node_to (root c) \<le> node_from (root c')) cs"

text \<open>
  No node of a decorated kind lies below another one; the flag tells whether an ancestor
  is of a decorated kind.
\<close>

fun nest_free :: "bool \<Rightarrow> syntax_tree \<Rightarrow> bool" where
  "nest_free inside (Tree n cs) \<longleftrightarrow>
     \<not> (inside \<and> decorated n) \<and> (\<forall>c\<in>set cs. nest_free (inside \<or> decorated n) c)"

definition ascending :: "decoration list \<Rightarrow> bool" where
  "ascending ds \<longleftrightarrow> sorted_wrt (\<lambda>d e. deco_from d \<le> deco_from e) ds"

definition non_overlapping :: "decoration list \<Rightarrow> bool" where
  "non_overlapping ds \<longleftrightarrow>
     sorted_wrt (\<lambda>d e. deco_to d \<le> deco_from e \<or> deco_to e \<le> deco_from d) ds"

text \<open>What \<open>enter\<close> adds for a node, starting from an empty builder.\<close>

definition emitted :: "editor_state \<Rightarrow> syntax_node \<Rightarrow> decoration list" where
  "emitted st n = (case enter st n [] of Inl e \<Rightarrow> [] | Inr ds \<Rightarrow> ds)"

subsection \<open>Notions used to state the properties of minifyHTML\<close>

text \<open>No line feed, carriage return or tab.\<close>

definition clean :: "jsstring \<Rightarrow> bool" where
  "clean s \<longleftrightarrow> (\<forall>c\<in>set s. c \<noteq> ch_lf \<and> c \<noteq> ch_cr \<and> c \<noteq> ch_tab)"

text \<open>No two adjacent white space code units.\<close>

fun no_ws_pair :: "jsstring \<Rightarrow> bool" where
  "no_ws_pair (a # b # r) \<longleftrightarrow> \<not> (is_ws a \<and> is_ws b) \<and> no_ws_pair (b # r)"
| "no_ws_pair _ \<longleftrightarrow> True"

text \<open>No white space at either end.\<close>

definition trimmed :: "jsstring \<Rightarrow> bool" where
  "trimmed s \<longleftrightarrow> s = [] \<or> (\<not> is_ws (hd s) \<and> \<not> is_ws (last s))"

section \<open>The document and the image pattern\<close>

subsection \<open>Lines and slices\<close>



text \<open>
  The line holds no line break, and ends at line breaks or at the ends of the document.
\<close>

lemma lineAt_no_break:
  assumes "lineAt d pos = Inr l"
  shows "ch_lf \<notin> set (sliceDoc d (line_from l) (line_to l))"
proof -
  from assms have le: "pos \<le> length d"
    and l: "l = \<lparr>line_from = pos - length (takeWhile (\<lambda>c. c \<noteq> ch_lf) (rev (take pos d))),
               line_to = pos + length (takeWhile (\<lambda>c. c \<noteq> ch_lf) (drop pos d))\<rparr>"
    by (auto simp: lineAt_def split: if_splits)
  define p where "p = takeWhile (\<lambda>c. c \<noteq> ch_lf) (rev (take pos d))"
  define q where "q = takeWhile (\<lambda>c. c \<noteq> ch_lf) (drop pos d)"
  have lp: "length p \<le> pos" unfolding p_def
    using length_takeWhile_le[of "\<lambda>c. c \<noteq> ch_lf" "rev (take pos d)"] le by simp
  have lq: "length q \<le> length d - pos" unfolding q_def
    using length_takeWhile_le[of "\<lambda>c. c \<noteq> ch_lf" "drop pos d"] by simp
  have p_eq: "rev p = drop (pos - length p) (take pos d)"
  proof -
    have "rev (take pos d) = p @ dropWhile (\<lambda>c. c \<noteq> ch_lf) (rev (take pos d))"
      unfolding p_def by simp
    then have "take pos d = rev (dropWhile (\<lambda>c. c \<noteq> ch_lf) (rev (take pos d))) @ rev p"
      by (metis rev_append rev_rev_ident)
    moreover have "length (rev (dropWhile (\<lambda>c. c \<noteq> ch_lf) (rev (take pos d)))) = pos - length p"
      unfolding p_def using le
      by (metis (no_types, lifting) diff_add_inverse length_append length_rev length_take min.absorb2
          takeWhile_dropWhile_id)
    ultimately show ?thesis by (metis append_eq_conv_conj)
  qed
  have q_eq: "q = take (length q) (drop pos d)"
    unfolding q_def by (metis append_eq_conv_conj takeWhile_dropWhile_id)
  have "sliceDoc d (line_from l) (line_to l) = rev p @ q"
  proof -
    have "sliceDoc d (pos - length p) (pos + length q)
        = take (length p + length q) (drop (pos - length p) d)"
      using lp by (simp add: sliceDoc_def add.commute)
    also have "\<dots> = take (length p) (drop (pos - length p) d)
                    @ take (length q) (drop (length p) (drop (pos - length p) d))"
      by (simp add: take_add)
    also have "take (length p) (drop (pos - length p) d) = drop (pos - length p) (take pos d)"
      using lp by (simp add: drop_take)
    also have "drop (length p) (drop (pos - length p) d) = drop pos d"
      using lp by simp
    finally show ?thesis using p_eq q_eq by (simp add: l p_def[symmetric] q_def[symmetric])
  qed
  moreover have "ch_lf \<notin> set p" unfolding p_def by (auto dest: set_takeWhileD)
  moreover have "ch_lf \<notin> set q" unfolding q_def by (auto dest: set_takeWhileD)
  ultimately show ?thesis by simp
qed

lemma lineAt_delimited:
  assumes "lineAt d pos = Inr l"
  shows "line_from l = 0 \<or> d ! (line_from l - 1) = ch_lf"
    and "line_to l = length d \<or> d ! line_to l = ch_lf"
proof -
  from assms have le: "pos \<le> length d"
    and l: "l = \<lparr>line_from = pos - length (takeWhile (\<lambda>c. c \<noteq> ch_lf) (rev (take pos d))),
               line_to = pos + length (takeWhile (\<lambda>c. c \<noteq> ch_lf) (drop pos d))\<rparr>"
    by (auto simp: lineAt_def split: if_splits)
  let ?P = "\<lambda>c. c \<noteq> ch_lf"
  let ?p = "takeWhile ?P (rev (take pos d))"
  let ?q = "takeWhile ?P (drop pos d)"
  show "line_from l = 0 \<or> d ! (line_from l - 1) = ch_lf"
  proof (cases "length ?p < pos")
    case True
    then have lt: "length ?p < length (rev (take pos d))" using le by simp
    then have "\<not> ?P (rev (take pos d) ! length ?p)" by (rule nth_length_takeWhile)
    moreover have "rev (take pos d) ! length ?p = take pos d ! (pos - Suc (length ?p))"
      using True le by (simp add: rev_nth)
    moreover have "take pos d ! (pos - Suc (length ?p)) = d ! (pos - Suc (length ?p))"
      using True by simp
    ultimately have "d ! (pos - length ?p - 1) = ch_lf" by simp
    then show ?thesis by (simp add: l)
  next
    case False
    moreover have "length ?p \<le> pos"
      using length_takeWhile_le [of ?P "rev (take pos d)"] le by simp
    ultimately show ?thesis by (simp add: l)
  qed
  show "line_to l = length d \<or> d ! line_to l = ch_lf"
  proof (cases "length ?q < length (drop pos d)")
    case True
    then have "\<not> ?P (drop pos d ! length ?q)" by (rule nth_length_takeWhile)
    moreover have "drop pos d ! length ?q = d ! (pos + length ?q)"
      using True le by simp
    ultimately show ?thesis by (simp add: l)
  next
    case False
    moreover have "length ?q \<le> length (drop pos d)" by (rule length_takeWhile_le)
    ultimately have "length ?q = length d - pos" by simp
    with le show ?thesis by (simp add: l)
  qed
qed




subsection \<open>What the image pattern matches\<close>

lemma match_url_complete:
  "\<forall>c\<in>set url. \<not> is_line_terminator c \<Longrightarrow>
     match_url acc (url @ [ch_rparen]) = Some (acc @ url)"
  by (induction url arbitrary: acc) auto

lemma match_url_sound:
  "match_url acc s = Some u \<Longrightarrow>
     \<exists>url. s = url @ [ch_rparen] \<and> u = acc @ url \<and> (\<forall>c\<in>set url. \<not> is_line_terminator c)"
proof (induction acc s rule: match_url.induct)
  case (1 acc)
  then show ?case by simp
next
  case (2 acc c cs)
  show ?case
  proof (cases "c = ch_rparen \<and> cs = []")
    case True
    with 2 show ?thesis by simp
  next
    case False
    with 2(2) have nlt: "\<not> is_line_terminator c" and m: "match_url (acc @ [c]) cs = Some u"
      by (auto split: if_splits)
    from 2(1) [OF False nlt m] obtain url where
      "cs = url @ [ch_rparen]" "u = (acc @ [c]) @ url" "\<forall>x\<in>set url. \<not> is_line_terminator x"
      by blast
    with nlt show ?thesis by (intro exI [of _ "c # url"]) simp
  qed
qed

lemma match_alt_sound:
  "match_alt acc s = Some (a, u) \<Longrightarrow>
     \<exists>alt. s = alt @ js '']('' @ u @ [ch_rparen] \<and> a = acc @ alt
       \<and> (\<forall>c\<in>set alt. \<not> is_line_terminator c) \<and> (\<forall>c\<in>set u. \<not> is_line_terminator c)"
proof (induction acc s rule: match_alt.induct)
  case (1 acc)
  then show ?case by simp
next
  case (2 acc c cs)
  let ?attempt = "if starts_with (js '']('') (c # cs) then match_url [] (drop 1 cs) else None"
  show ?case
  proof (cases ?attempt)
    case (Some url)
    with 2(2) have a: "a = acc" and u: "u = url" by auto
    from Some have sw: "starts_with (js '']('') (c # cs)" and mu: "match_url [] (drop 1 cs) = Some url"
      by (auto split: if_splits)
    from sw have ccs: "c # cs = js '']('' @ drop 1 cs"
      by (cases cs) (auto simp: starts_with_def js_def)
    from match_url_sound [OF mu] obtain v where
      "drop 1 cs = v @ [ch_rparen]" "url = v" "\<forall>x\<in>set v. \<not> is_line_terminator x" by auto
    with ccs a u show ?thesis by (intro exI [of _ "[]"]) simp
  next
    case None
    with 2(2) have nlt: "\<not> is_line_terminator c" and m: "match_alt (acc @ [c]) cs = Some (a, u)"
      by (auto split: if_splits)
    from 2(1) [OF None nlt m] obtain alt where
      "cs = alt @ js '']('' @ u @ [ch_rparen]" "a = (acc @ [c]) @ alt"
      "\<forall>x\<in>set alt. \<not> is_line_terminator x" "\<forall>x\<in>set u. \<not> is_line_terminator x"
      by blast
    with nlt show ?thesis by (intro exI [of _ "c # alt"]) simp
  qed
qed

text \<open>
  A match has the shape \<open>![alt](url)\<close>, with no line terminator in \<open>alt\<close> or \<open>url\<close>.
\<close>

lemma image_match_sound:
  assumes "image_match text = Some (alt, url)"
  shows "text = js ''!['' @ alt @ js '']('' @ url @ js '')''"
    and "\<forall>c\<in>set alt. \<not> is_line_terminator c"
    and "\<forall>c\<in>set url. \<not> is_line_terminator c"
proof -
  from assms have sw: "starts_with (js ''!['') text" and m: "match_alt [] (drop 2 text) = Some (alt, url)"
    by (auto simp: image_match_def split: if_splits)
  have "text = take 2 text @ drop 2 text" by simp
  with sw have t: "text = js ''!['' @ drop 2 text"
    by (simp add: starts_with_def js_def numeral_2_eq_2)
  from match_alt_sound [OF m] obtain a where
    a: "drop 2 text = a @ js '']('' @ url @ [ch_rparen]" "alt = a"
       "\<forall>c\<in>set a. \<not> is_line_terminator c" "\<forall>c\<in>set url. \<not> is_line_terminator c"
    by auto
  show "text = js ''!['' @ alt @ js '']('' @ url @ js '')''"
    using t a(1,2) by (simp add: js_def)
  show "\<forall>c\<in>set alt. \<not> is_line_terminator c" using a by simp
  show "\<forall>c\<in>set url. \<not> is_line_terminator c" using a by simp
qed

lemma match_alt_complete:
  assumes "\<forall>c\<in>set alt. \<not> is_line_terminator c \<and> c \<noteq> 93"
    and "\<forall>c\<in>set url. \<not> is_line_terminator c"
  shows "match_alt acc (alt @ js '']('' @ url @ [ch_rparen]) = Some (acc @ alt, url)"
  using assms
proof (induction alt arbitrary: acc)
  case Nil
  then show ?case
    by (simp add: js_def starts_with_def match_url_complete)
next
  case (Cons c alt)
  then have "\<not> starts_with (js '']('') (c # alt @ js '']('' @ url @ [ch_rparen])"
    by (simp add: starts_with_def js_def)
  with Cons show ?case by simp
qed

text \<open>
  A text of the shape \<open>![alt](url)\<close> with no line terminator, and no \<open>]\<close> in
  \<open>alt\<close>, matches with these two groups.
\<close>

lemma image_match_complete:
  assumes "\<forall>c\<in>set alt. \<not> is_line_terminator c \<and> c \<noteq> 93"
    and "\<forall>c\<in>set url. \<not> is_line_terminator c"
  shows "image_match (js ''!['' @ alt @ js '']('' @ url @ js '')'') = Some (alt, url)"
  using match_alt_complete [OF assms, of "[]"]
  by (simp add: image_match_def starts_with_def js_def)


section \<open>The decisions of enter\<close>











text \<open>
  Claim C6. For an Image node that is not revealed and whose text does not match the
  image pattern, \<open>enter\<close> returns the builder unchanged: no decoration, no error.
\<close>

theorem malformed_image_fallback:
  assumes "name node = ''Image''"
    and "lineAt (doc st) (node_from node) = Inr l"
    and "\<not> (sel_from (selection_main st) \<le> line_to l \<and> sel_to (selection_main st) \<ge> line_from l)"
    and "image_match (sliceDoc (doc st) (node_from node) (node_to node)) = None"
  shows "enter st node b = Inr b"
  using assms by (simp add: enter_def hideNode_def Let_def)

text \<open>
  The example of the specification: the closing bracket and parenthesis are missing.
\<close>

theorem malformed_image_fallback_witness:
  "image_match (js ''![oops(missing-paren'') = None
   \<and> enter \<lparr>doc = js ''x'' @ [ch_lf] @ js ''![oops(missing-paren'',
          syntaxTree = Tree \<lparr>name = ''Document'', node_from = 0, node_to = 22\<rparr> [],
          selection_main = \<lparr>sel_from = 0, sel_to = 0\<rparr>\<rparr>
     \<lparr>name = ''Image'', node_from = 2, node_to = 22\<rparr> []
   = Inr []"
  using malformed_image_fallback [of "\<lparr>name = ''Image'', node_from = 2, node_to = 22\<rparr>"
      "\<lparr>doc = js ''x'' @ [ch_lf] @ js ''![oops(missing-paren'',
          syntaxTree = Tree \<lparr>name = ''Document'', node_from = 0, node_to = 22\<rparr> [],
          selection_main = \<lparr>sel_from = 0, sel_to = 0\<rparr>\<rparr>"
      "\<lparr>line_from = 2, line_to = 22\<rparr>" "[]"]
  by (simp add: lineAt_def sliceDoc_def js_def image_match_def starts_with_def
      is_line_terminator_def)



section \<open>The entries of a build\<close>

subsection \<open>What one call of enter adds\<close>

lemma hideNode_append: "hideNode d n b = b @ hideNode d n []"
  by (simp add: hideNode_def add_def Let_def split: option.splits)

lemma enter_Inr_iff:
  "(\<exists>b'. enter st n b = Inr b') \<longleftrightarrow> node_from n \<le> length (doc st)"
  by (auto simp: enter_def lineAt_def Let_def split: sum.splits if_splits)

lemma enter_from_empty:
  "enter st n [] = Inr ds \<Longrightarrow> enter st n b = Inr (b @ ds)"
  using hideNode_append [of "doc st" n b]
  by (auto simp: enter_def Let_def split: sum.splits if_splits)

lemma hideNode_entries:
  assumes "e \<in> set (hideNode d n [])"
  shows "decorated n \<and> deco_from e = node_from n
       \<and> (deco_to e = node_to n
          \<or> name n = ''HeaderMark'' \<and> sliceDoc d (node_to n) (node_to n + 1) = js '' ''
            \<and> deco_to e = node_to n + 1)"
  using assms
  by (auto simp: hideNode_def add_def Let_def decorated_def split: if_splits option.splits)

lemma enter_entries:
  assumes "enter st n [] = Inr ds" and "e \<in> set ds"
  shows "decorated n \<and> deco_from e = node_from n
       \<and> (deco_to e = node_to n
          \<or> name n = ''HeaderMark'' \<and> sliceDoc (doc st) (node_to n) (node_to n + 1) = js '' ''
            \<and> deco_to e = node_to n + 1)"
proof -
  from assms have "e \<in> set (hideNode (doc st) n [])"
    by (auto simp: enter_def Let_def split: sum.splits if_splits)
  then show ?thesis by (rule hideNode_entries)
qed

lemma enter_at_most_one:
  "enter st n [] = Inr ds \<Longrightarrow> length ds \<le> 1"
  by (auto simp: enter_def hideNode_def add_def Let_def split: sum.splits if_splits option.splits)

lemma emitted_entries:
  assumes "e \<in> set (emitted st n)"
  shows "decorated n \<and> deco_from e = node_from n
       \<and> (deco_to e = node_to n
          \<or> name n = ''HeaderMark'' \<and> sliceDoc (doc st) (node_to n) (node_to n + 1) = js '' ''
            \<and> deco_to e = node_to n + 1)"
proof (cases "enter st n []")
  case (Inl x)
  with assms show ?thesis by (simp add: emitted_def)
next
  case (Inr ds)
  with assms have "e \<in> set ds" by (simp add: emitted_def)
  with Inr show ?thesis by (rule enter_entries)
qed

lemma emitted_at_most_one: "length (emitted st n) \<le> 1"
  using enter_at_most_one [of st n] by (cases "enter st n []") (auto simp: emitted_def)

subsection \<open>The entries of a build are those of its nodes, in the order of the visits\<close>

lemma enter_nodes_emitted:
  "\<forall>n\<in>set ns. node_from n \<le> length (doc st) \<Longrightarrow>
     enter_nodes st ns b = Inr (b @ concat (map (emitted st) ns))"
proof (induction ns arbitrary: b)
  case Nil
  then show ?case by simp
next
  case (Cons n ns)
  then have "node_from n \<le> length (doc st)" by simp
  then obtain ds where ds: "enter st n [] = Inr ds"
    using enter_Inr_iff [of st n "[]"] by auto
  then have "enter st n b = Inr (b @ ds)" by (rule enter_from_empty)
  moreover have "emitted st n = ds" using ds by (simp add: emitted_def)
  ultimately show ?case using Cons by simp
qed

lemma build_ranges_emitted:
  "\<forall>n\<in>set (concat (map (\<lambda>(a, z). iterate (syntaxTree st) a z) rs)). node_from n \<le> length (doc st) \<Longrightarrow>
     build_ranges st rs b =
       Inr (b @ concat (map (emitted st) (concat (map (\<lambda>(a, z). iterate (syntaxTree st) a z) rs))))"
proof (induction rs arbitrary: b)
  case Nil
  then show ?case by simp
next
  case (Cons r rs)
  obtain a z where r: "r = (a, z)" by (cases r)
  from Cons.prems have 1: "\<forall>n\<in>set (iterate (syntaxTree st) a z). node_from n \<le> length (doc st)"
    and 2: "\<forall>n\<in>set (concat (map (\<lambda>(a, z). iterate (syntaxTree st) a z) rs)). node_from n \<le> length (doc st)"
    by (auto simp: r)
  show ?case
    by (simp add: r enter_nodes_emitted [OF 1] Cons.IH [OF 2])
qed

lemma buildDecorations_emitted:
  assumes "\<forall>n\<in>set (visited view). node_from n \<le> length (doc (view_state view))"
  shows "buildDecorations view = Inr (concat (map (emitted (view_state view)) (visited view)))"
  using build_ranges_emitted [of "view_state view" "visibleRanges view" "[]"] assms
  by (simp add: buildDecorations_def visited_def)

subsection \<open>Order\<close>

lemma short_sorted_wrt: "length xs \<le> 1 \<Longrightarrow> sorted_wrt R xs"
  by (cases xs) auto

lemma emitted_ordered:
  assumes "sorted_wrt (\<lambda>a b. node_to a \<le> node_from b) (filter decorated ns)"
    and "\<forall>h\<in>set ns. \<forall>n\<in>set ns.
           name h = ''HeaderMark'' \<and> decorated n
           \<and> sliceDoc (doc st) (node_to h) (node_to h + 1) = js '' ''
           \<longrightarrow> node_from n \<noteq> node_to h"
  shows "sorted_wrt (\<lambda>d e. deco_to d \<le> deco_from e) (concat (map (emitted st) ns))"
  using assms
proof (induction ns)
  case Nil
  then show ?case by simp
next
  case (Cons n ns)
  have tail: "sorted_wrt (\<lambda>d e. deco_to d \<le> deco_from e) (concat (map (emitted st) ns))"
  proof (rule Cons.IH)
    show "sorted_wrt (\<lambda>a b. node_to a \<le> node_from b) (filter decorated ns)"
      using Cons.prems(1) by (simp split: if_splits)
    show "\<forall>h\<in>set ns. \<forall>n\<in>set ns.
           name h = ''HeaderMark'' \<and> decorated n
           \<and> sliceDoc (doc st) (node_to h) (node_to h + 1) = js '' ''
           \<longrightarrow> node_from n \<noteq> node_to h"
      using Cons.prems(2) by simp
  qed
  have cross: "deco_to d \<le> deco_from e"
    if d: "d \<in> set (emitted st n)" and e: "e \<in> set (concat (map (emitted st) ns))" for d e
  proof -
    from e obtain m where m: "m \<in> set ns" and em: "e \<in> set (emitted st m)" by auto
    from emitted_entries [OF d] have dn: "decorated n"
      and dto: "deco_to d = node_to n
          \<or> name n = ''HeaderMark'' \<and> sliceDoc (doc st) (node_to n) (node_to n + 1) = js '' ''
            \<and> deco_to d = node_to n + 1"
      by auto
    from emitted_entries [OF em] have dm: "decorated m" and efrom: "deco_from e = node_from m"
      by auto
    from Cons.prems(1) dn dm m have le: "node_to n \<le> node_from m" by simp
    from dto show ?thesis
    proof
      assume "deco_to d = node_to n"
      with le efrom show ?thesis by simp
    next
      assume h: "name n = ''HeaderMark'' \<and> sliceDoc (doc st) (node_to n) (node_to n + 1) = js '' ''
            \<and> deco_to d = node_to n + 1"
      with Cons.prems(2) dm m have "node_from m \<noteq> node_to n" by simp
      with le h efrom show ?thesis by simp
    qed
  qed
  have "sorted_wrt (\<lambda>d e. deco_to d \<le> deco_from e) (emitted st n)"
    by (rule short_sorted_wrt) (rule emitted_at_most_one)
  with tail cross show ?case by (simp add: sorted_wrt_append)
qed

lemma ordered_ascending_disjoint:
  assumes "sorted_wrt (\<lambda>d e. deco_to d \<le> deco_from e) ds"
    and "\<forall>d\<in>set ds. deco_from d \<le> deco_to d"
  shows "ascending ds" and "non_overlapping ds"
proof -
  have "sorted_wrt (\<lambda>d e. deco_from d \<le> deco_from e) ds"
    using assms
    by (induction ds) (auto intro: order_trans)
  then show "ascending ds" by (simp add: ascending_def)
  have "sorted_wrt (\<lambda>d e. deco_to d \<le> deco_from e \<or> deco_to e \<le> deco_from d) ds"
    using assms(1) by (rule sorted_wrt_mono_rel [rotated]) simp
  then show "non_overlapping ds" by (simp add: non_overlapping_def)
qed

text \<open>
  Claim C1, amended. Suppose every node handed to \<open>enter\<close> during the build is a range
  of the document, the nodes of decorated kinds are handed over, across all visible
  ranges, from left to right with each ending before the next starts, and no node of a
  decorated kind starts at a space that directly follows a Header Mark. Then the build
  completes, its entries are in non-decreasing order of their start, and no two of them
  overlap.
\<close>

theorem decorations_ascending_disjoint:
  assumes ranges: "\<forall>n\<in>set (visited view).
             node_from n \<le> node_to n \<and> node_to n \<le> length (doc (view_state view))"
    and order: "sorted_wrt (\<lambda>a b. node_to a \<le> node_from b) (filter decorated (visited view))"
    and space: "\<forall>h\<in>set (visited view). \<forall>n\<in>set (visited view).
             name h = ''HeaderMark'' \<and> decorated n
             \<and> sliceDoc (doc (view_state view)) (node_to h) (node_to h + 1) = js '' ''
             \<longrightarrow> node_from n \<noteq> node_to h"
  shows "\<exists>ds. buildDecorations view = Inr ds \<and> ascending ds \<and> non_overlapping ds"
proof -
  let ?st = "view_state view"
  let ?ds = "concat (map (emitted ?st) (visited view))"
  have "\<forall>n\<in>set (visited view). node_from n \<le> length (doc ?st)"
    using ranges by (auto intro: order_trans)
  then have build: "buildDecorations view = Inr ?ds"
    by (rule buildDecorations_emitted)
  have ord: "sorted_wrt (\<lambda>d e. deco_to d \<le> deco_from e) ?ds"
    using order space by (rule emitted_ordered)
  have "\<forall>d\<in>set ?ds. deco_from d \<le> deco_to d"
  proof
    fix d assume "d \<in> set ?ds"
    then obtain n where n: "n \<in> set (visited view)" and d: "d \<in> set (emitted ?st n)" by auto
    from emitted_entries [OF d] ranges n show "deco_from d \<le> deco_to d" by auto
  qed
  with ord have "ascending ?ds" "non_overlapping ?ds"
    by (rule ordered_ascending_disjoint)+
  with build show ?thesis by blast
qed

text \<open>
  The heading \<open># *a*\<close> with the cursor on the line below: the mark with its space and
  the two emphasis marks are hidden, in this order.
\<close>

theorem decorations_ascending_disjoint_witness:
  "buildDecorations
        \<lparr>view_state =
           \<lparr>doc = js ''# *a*'' @ [ch_lf] @ js ''x'',
            syntaxTree = Tree \<lparr>name = ''Document'', node_from = 0, node_to = 7\<rparr>
              [Tree \<lparr>name = ''ATXHeading1'', node_from = 0, node_to = 5\<rparr>
                 [Tree \<lparr>name = ''HeaderMark'', node_from = 0, node_to = 1\<rparr> [],
                  Tree \<lparr>name = ''Emphasis'', node_from = 2, node_to = 5\<rparr>
                    [Tree \<lparr>name = ''EmphasisMark'', node_from = 2, node_to = 3\<rparr> [],
                     Tree \<lparr>name = ''EmphasisMark'', node_from = 4, node_to = 5\<rparr> []]],
               Tree \<lparr>name = ''Paragraph'', node_from = 6, node_to = 7\<rparr> []],
            selection_main = \<lparr>sel_from = 6, sel_to = 6\<rparr>\<rparr>,
         visibleRanges = [(0, 7)]\<rparr>
     = Inr [\<lparr>deco_from = 0, deco_to = 2, deco_widget = None\<rparr>,
            \<lparr>deco_from = 2, deco_to = 3, deco_widget = None\<rparr>,
            \<lparr>deco_from = 4, deco_to = 5, deco_widget = None\<rparr>]
   \<and> ascending [\<lparr>deco_from = 0, deco_to = 2, deco_widget = None\<rparr>,
            \<lparr>deco_from = 2, deco_to = 3, deco_widget = None\<rparr>,
            \<lparr>deco_from = 4, deco_to = 5, deco_widget = None\<rparr>]
   \<and> non_overlapping [\<lparr>deco_from = 0, deco_to = 2, deco_widget = None\<rparr>,
            \<lparr>deco_from = 2, deco_to = 3, deco_widget = None\<rparr>,
            \<lparr>deco_from = 4, deco_to = 5, deco_widget = None\<rparr>]"
  using decorations_ascending_disjoint [of
        "\<lparr>view_state =
           \<lparr>doc = js ''# *a*'' @ [ch_lf] @ js ''x'',
            syntaxTree = Tree \<lparr>name = ''Document'', node_from = 0, node_to = 7\<rparr>
              [Tree \<lparr>name = ''ATXHeading1'', node_from = 0, node_to = 5\<rparr>
                 [Tree \<lparr>name = ''HeaderMark'', node_from = 0, node_to = 1\<rparr> [],
                  Tree \<lparr>name = ''Emphasis'', node_from = 2, node_to = 5\<rparr>
                    [Tree \<lparr>name = ''EmphasisMark'', node_from = 2, node_to = 3\<rparr> [],
                     Tree \<lparr>name = ''EmphasisMark'', node_from = 4, node_to = 5\<rparr> []]],
               Tree \<lparr>name = ''Paragraph'', node_from = 6, node_to = 7\<rparr> []],
            selection_main = \<lparr>sel_from = 6, sel_to = 6\<rparr>\<rparr>,
         visibleRanges = [(0, 7)]\<rparr>"]
  by (simp add: visited_def buildDecorations_def enter_def lineAt_def hideNode_def add_def
      sliceDoc_def decorated_def ascending_def non_overlapping_def js_def Let_def)

text \<open>
  Claim C1 as stated fails. An HTML block over the offsets 0 to 33 whose content
  between the lines of its two tags is hidden (folded away, say) leaves the visible
  ranges 0 to 3 and 29 to 37; the block reaches into both, so \<open>iterate\<close> delivers it
  for both, and the builder receives the same range twice. No decorated node is nested
  in another one.
\<close>

theorem duplicate_across_visible_ranges:
  "well_formed (Tree \<lparr>name = ''Document'', node_from = 0, node_to = 37\<rparr>
      [Tree \<lparr>name = ''HTMLBlock'', node_from = 0, node_to = 33\<rparr> [],
       Tree \<lparr>name = ''Paragraph'', node_from = 34, node_to = 37\<rparr> []])
   \<and> nest_free False (Tree \<lparr>name = ''Document'', node_from = 0, node_to = 37\<rparr>
      [Tree \<lparr>name = ''HTMLBlock'', node_from = 0, node_to = 33\<rparr> [],
       Tree \<lparr>name = ''Paragraph'', node_from = 34, node_to = 37\<rparr> []])
   \<and> buildDecorations
        \<lparr>view_state =
           \<lparr>doc = js ''<b>'' @ [ch_lf] @ js ''0123456789abcdefghijklmn'' @ [ch_lf] @ js ''</b>''
                    @ [ch_lf] @ js ''end'',
            syntaxTree = Tree \<lparr>name = ''Document'', node_from = 0, node_to = 37\<rparr>
              [Tree \<lparr>name = ''HTMLBlock'', node_from = 0, node_to = 33\<rparr> [],
               Tree \<lparr>name = ''Paragraph'', node_from = 34, node_to = 37\<rparr> []],
            selection_main = \<lparr>sel_from = 37, sel_to = 37\<rparr>\<rparr>,
         visibleRanges = [(0, 3), (29, 37)]\<rparr>
     = Inr [\<lparr>deco_from = 0, deco_to = 33,
             deco_widget = Some (HTMLWidget (js ''<b>0123456789abcdefghijklmn</b>''))\<rparr>,
            \<lparr>deco_from = 0, deco_to = 33,
             deco_widget = Some (HTMLWidget (js ''<b>0123456789abcdefghijklmn</b>''))\<rparr>]
   \<and> \<not> non_overlapping
        [\<lparr>deco_from = 0, deco_to = 33,
          deco_widget = Some (HTMLWidget (js ''<b>0123456789abcdefghijklmn</b>''))\<rparr>,
         \<lparr>deco_from = 0, deco_to = 33,
          deco_widget = Some (HTMLWidget (js ''<b>0123456789abcdefghijklmn</b>''))\<rparr>]"
  by (simp add: buildDecorations_def enter_def lineAt_def hideNode_def add_def sliceDoc_def
      decorated_def non_overlapping_def js_def Let_def
      minifyHTML_def m_comment_def starts_with_def m_newlines_def m_tab_def m_between_tags_def
      js_trim_def is_ws_def m_spaces_def m_around_def m_style_tag_def starts_with_ci_def
      upper_def m_style_attr_def m_unquote_def m_self_closing_def is_quote_def is_simple_def)

subsection \<open>One visible range over a well-formed tree\<close>

text \<open>
  One call of \<open>iterate\<close> on a well-formed tree without nested decorated nodes delivers
  the decorated nodes from left to right, each ending before the next starts: with one
  visible range, the first two assumptions of the theorem above hold.
\<close>

lemma iterate_within:
  "well_formed t \<Longrightarrow> m \<in> set (iterate t a z) \<Longrightarrow>
     node_from (root t) \<le> node_from m \<and> node_to m \<le> node_to (root t) \<and> node_from m \<le> node_to m"
proof (induction t arbitrary: m)
  case (Tree n cs)
  show ?case
  proof (cases "m = n")
    case True
    with Tree.prems(1) show ?thesis by simp
  next
    case False
    with Tree.prems(2) obtain c where c: "c \<in> set cs" and m: "m \<in> set (iterate c a z)"
      by (auto split: if_splits)
    from Tree.prems(1) c have wf: "well_formed c"
      and in_n: "node_from n \<le> node_from (root c)" "node_to (root c) \<le> node_to n"
      by auto
    from Tree.IH [OF c wf m] in_n show ?thesis by simp
  qed
qed

lemma iterate_below_decorated:
  "nest_free True t \<Longrightarrow> filter decorated (iterate t a z) = []"
proof (induction t)
  case (Tree n cs)
  then have "\<forall>c\<in>set cs. filter decorated (iterate c a z) = []" by simp
  then have "filter decorated (concat (map (\<lambda>c. iterate c a z) cs)) = []"
    by (simp add: filter_concat)
  with Tree.prems show ?case by simp
qed

lemma sorted_wrt_concat_map:
  assumes "\<forall>c\<in>set cs. sorted_wrt R (f c)"
    and "sorted_wrt (\<lambda>c c'. \<forall>x\<in>set (f c). \<forall>y\<in>set (f c'). R x y) cs"
  shows "sorted_wrt R (concat (map f cs))"
  using assms by (induction cs) (auto simp: sorted_wrt_append)

lemma iterate_ordered:
  "well_formed t \<Longrightarrow> nest_free False t \<Longrightarrow>
     sorted_wrt (\<lambda>x y. node_to x \<le> node_from y) (filter decorated (iterate t a z))"
proof (induction t)
  case (Tree n cs)
  let ?R = "\<lambda>x y :: syntax_node. node_to x \<le> node_from y"
  let ?f = "\<lambda>c. filter decorated (iterate c a z)"
  have flat: "filter decorated (concat (map (\<lambda>c. iterate c a z) cs)) = concat (map ?f cs)"
    by (simp add: filter_concat comp_def)
  show ?case
  proof (cases "decorated n")
    case True
    with Tree.prems(2) have "\<forall>c\<in>set cs. ?f c = []"
      by (simp add: iterate_below_decorated)
    then have "concat (map ?f cs) = []" by simp
    with flat show ?thesis by simp
  next
    case False
    with Tree.prems have each: "\<forall>c\<in>set cs. sorted_wrt ?R (?f c)"
      using Tree.IH by simp
    have "sorted_wrt (\<lambda>c c'. \<forall>x\<in>set (?f c). \<forall>y\<in>set (?f c'). ?R x y) cs"
    proof (rule sorted_wrt_mono_rel [of cs "\<lambda>c c'. node_to (root c) \<le> node_from (root c')"])
      show "sorted_wrt (\<lambda>c c'. node_to (root c) \<le> node_from (root c')) cs"
        using Tree.prems(1) by simp
      fix c c' assume c: "c \<in> set cs" and c': "c' \<in> set cs"
        and le: "node_to (root c) \<le> node_from (root c')"
      from Tree.prems(1) c c' have wf: "well_formed c" "well_formed c'" by auto
      show "\<forall>x\<in>set (?f c). \<forall>y\<in>set (?f c'). ?R x y"
      proof (intro ballI)
        fix x y assume "x \<in> set (?f c)" "y \<in> set (?f c')"
        then have "x \<in> set (iterate c a z)" "y \<in> set (iterate c' a z)" by auto
        with iterate_within [OF wf(1)] iterate_within [OF wf(2)] le
        show "?R x y" by (meson order_trans)
      qed
    qed
    with each have "sorted_wrt ?R (concat (map ?f cs))" by (rule sorted_wrt_concat_map)
    with flat False show ?thesis by simp
  qed
qed

lemma single_range_hypotheses:
  assumes "well_formed (syntaxTree (view_state view))"
    and "nest_free False (syntaxTree (view_state view))"
    and "node_to (root (syntaxTree (view_state view))) \<le> length (doc (view_state view))"
    and "visibleRanges view = [(a, z)]"
  shows "\<forall>n\<in>set (visited view).
           node_from n \<le> node_to n \<and> node_to n \<le> length (doc (view_state view))"
    and "sorted_wrt (\<lambda>x y. node_to x \<le> node_from y) (filter decorated (visited view))"
proof -
  have v: "visited view = iterate (syntaxTree (view_state view)) a z"
    using assms(4) by (simp add: visited_def)
  show "\<forall>n\<in>set (visited view).
           node_from n \<le> node_to n \<and> node_to n \<le> length (doc (view_state view))"
    using iterate_within [OF assms(1)] assms(3) unfolding v by (meson order_trans)
  show "sorted_wrt (\<lambda>x y. node_to x \<le> node_from y) (filter decorated (visited view))"
    unfolding v using assms(1,2) by (rule iterate_ordered)
qed

section \<open>The output of minifyHTML\<close>

subsection \<open>Strings without two adjacent white space code units\<close>

lemma no_ws_pair_Cons:
  "no_ws_pair (a # s) \<longleftrightarrow> (is_ws a \<longrightarrow> s = [] \<or> \<not> is_ws (hd s)) \<and> no_ws_pair s"
  by (cases s) auto

lemma no_ws_pair_append:
  "no_ws_pair (a @ b) \<longleftrightarrow>
     no_ws_pair a \<and> no_ws_pair b \<and> (a = [] \<or> b = [] \<or> \<not> (is_ws (last a) \<and> is_ws (hd b)))"
proof (induction a)
  case Nil
  then show ?case by simp
next
  case (Cons x a)
  show ?case
  proof (cases a)
    case Nil
    then show ?thesis by (cases b) auto
  next
    case (Cons y a')
    with Cons.IH show ?thesis by auto
  qed
qed

lemma no_ws_pair_drop: "no_ws_pair s \<Longrightarrow> no_ws_pair (drop k s)"
  using no_ws_pair_append [of "take k s" "drop k s"] by simp

lemma no_ws_pair_take: "no_ws_pair s \<Longrightarrow> no_ws_pair (take k s)"
  using no_ws_pair_append [of "take k s" "drop k s"] by simp

lemma no_ws_pair_dropWhile: "no_ws_pair s \<Longrightarrow> no_ws_pair (dropWhile P s)"
  using no_ws_pair_append [of "takeWhile P s" "dropWhile P s"] by simp

lemma no_ws_pair_rev: "no_ws_pair (rev s) \<longleftrightarrow> no_ws_pair s"
proof (induction s)
  case Nil
  then show ?case by simp
next
  case (Cons a s)
  have "no_ws_pair (rev (a # s)) \<longleftrightarrow>
          no_ws_pair (rev s) \<and> (s = [] \<or> \<not> (is_ws (hd s) \<and> is_ws a))"
    by (simp add: no_ws_pair_append last_rev)
  also have "\<dots> \<longleftrightarrow> no_ws_pair (a # s)"
    using Cons.IH by (auto simp: no_ws_pair_Cons)
  finally show ?case .
qed

lemma no_ws_pair_nth:
  "no_ws_pair s \<Longrightarrow> Suc i < length s \<Longrightarrow> \<not> (is_ws (s ! i) \<and> is_ws (s ! Suc i))"
proof (induction s arbitrary: i rule: no_ws_pair.induct)
  case (1 a b r)
  then show ?case by (cases i) auto
qed auto

lemma no_ws_pair_all_non_ws: "\<forall>c\<in>set s. \<not> is_ws c \<Longrightarrow> no_ws_pair s"
  by (induction s rule: no_ws_pair.induct) auto

subsection \<open>js_trim\<close>

lemma js_trim_prefix:
  "dropWhile is_ws s = js_trim s @ rev (takeWhile is_ws (rev (dropWhile is_ws s)))"
proof -
  let ?t = "dropWhile is_ws s"
  have "rev (rev ?t) = rev (takeWhile is_ws (rev ?t) @ dropWhile is_ws (rev ?t))"
    by (simp only: takeWhile_dropWhile_id)
  then show ?thesis
    unfolding js_trim_def by (simp only: rev_append rev_rev_ident)
qed

lemma js_trim_trimmed: "trimmed (js_trim s)"
proof (cases "js_trim s = []")
  case True
  then show ?thesis by (simp add: trimmed_def)
next
  case False
  then have ne: "dropWhile is_ws (rev (dropWhile is_ws s)) \<noteq> []"
    by (simp add: js_trim_def)
  have "last (js_trim s) = hd (dropWhile is_ws (rev (dropWhile is_ws s)))"
    using ne by (simp add: js_trim_def last_rev)
  then have l: "\<not> is_ws (last (js_trim s))"
    using ne hd_dropWhile [of is_ws "rev (dropWhile is_ws s)"] by simp
  have "hd (js_trim s) = hd (dropWhile is_ws s)"
    using False js_trim_prefix [of s] by (metis hd_append2)
  moreover have "dropWhile is_ws s \<noteq> []"
    using False js_trim_prefix [of s] by (metis append_is_Nil_conv)
  ultimately have "\<not> is_ws (hd (js_trim s))"
    using hd_dropWhile [of is_ws s] by simp
  with l show ?thesis by (simp add: trimmed_def)
qed

lemma set_js_trim: "set (js_trim s) \<subseteq> set s"
proof -
  have "set (js_trim s) \<subseteq> set (dropWhile is_ws s)"
    by (auto simp: js_trim_def dest: set_dropWhileD)
  then show ?thesis by (auto dest: set_dropWhileD)
qed

lemma js_trim_no_ws_pair: "no_ws_pair s \<Longrightarrow> no_ws_pair (js_trim s)"
  by (simp add: js_trim_def no_ws_pair_rev no_ws_pair_dropWhile)


subsection \<open>Properties that a global replacement preserves\<close>

lemma clean_drop: "clean s \<Longrightarrow> clean (drop k s)"
  by (auto simp: clean_def dest: in_set_dropD)

lemma clean_take: "clean s \<Longrightarrow> clean (take k s)"
  by (auto simp: clean_def dest: in_set_takeD)

lemma clean_append: "clean (a @ b) \<longleftrightarrow> clean a \<and> clean b"
  by (auto simp: clean_def)

lemma clean_subset: "set a \<subseteq> set b \<Longrightarrow> clean b \<Longrightarrow> clean a"
  by (auto simp: clean_def)

lemma replace_all_clean:
  assumes reps: "\<And>t rep n. m t = Some (rep, n) \<Longrightarrow> clean t \<Longrightarrow> clean rep"
    and "clean s"
  shows "clean (replace_all m s)"
  using assms(2)
proof (induction "length s" arbitrary: s rule: less_induct)
  case less
  show ?case
  proof (cases s)
    case Nil
    then show ?thesis by (simp add: clean_def)
  next
    case (Cons c cs)
    show ?thesis
    proof (cases "m (c # cs)")
      case None
      have "clean cs" using less.prems Cons by (simp add: clean_def)
      then have "clean (replace_all m cs)" using less.hyps [of cs] Cons by simp
      with None Cons less.prems show ?thesis by (simp add: clean_def)
    next
      case (Some p)
      obtain rep n where p: "p = (rep, n)" by (cases p)
      have "clean cs" using less.prems Cons by (simp add: clean_def)
      then have "clean (drop (n - 1) cs)" by (rule clean_drop)
      then have "clean (replace_all m (drop (n - 1) cs))"
        using less.hyps [of "drop (n - 1) cs"] Cons by simp
      moreover have "clean rep" using reps [of "c # cs" rep n] Some p less.prems Cons by simp
      ultimately show ?thesis using Some p Cons by (simp add: clean_append)
    qed
  qed
qed

lemma replace_all_hd:
  assumes reps: "\<And>t rep n. m t = Some (rep, n) \<Longrightarrow> rep \<noteq> [] \<and> \<not> is_ws (hd rep)"
  shows "replace_all m s = [] \<or> \<not> is_ws (hd (replace_all m s)) \<or> (s \<noteq> [] \<and> is_ws (hd s))"
proof (cases s)
  case Nil
  then show ?thesis by simp
next
  case (Cons c cs)
  show ?thesis
  proof (cases "m (c # cs)")
    case None
    with Cons show ?thesis by simp
  next
    case (Some p)
    obtain rep n where p: "p = (rep, n)" by (cases p)
    with reps [of "c # cs" rep n] Some Cons show ?thesis by simp
  qed
qed

lemma replace_all_no_ws_pair:
  assumes reps: "\<And>t rep n. m t = Some (rep, n) \<Longrightarrow>
             rep \<noteq> [] \<and> \<not> is_ws (hd rep) \<and> \<not> is_ws (last rep) \<and> no_ws_pair rep"
    and "no_ws_pair s"
  shows "no_ws_pair (replace_all m s)"
  using assms(2)
proof (induction "length s" arbitrary: s rule: less_induct)
  case less
  have hd_out: "replace_all m t = [] \<or> \<not> is_ws (hd (replace_all m t)) \<or> (t \<noteq> [] \<and> is_ws (hd t))"
    for t using reps by (intro replace_all_hd) blast
  show ?case
  proof (cases s)
    case Nil
    then show ?thesis by simp
  next
    case (Cons c cs)
    show ?thesis
    proof (cases "m (c # cs)")
      case None
      have cs: "no_ws_pair cs" and c: "is_ws c \<longrightarrow> cs = [] \<or> \<not> is_ws (hd cs)"
        using less.prems Cons by (auto simp: no_ws_pair_Cons)
      from cs have "no_ws_pair (replace_all m cs)" using less.hyps [of cs] Cons by simp
      moreover have "is_ws c \<longrightarrow> replace_all m cs = [] \<or> \<not> is_ws (hd (replace_all m cs))"
        using c hd_out [of cs] by auto
      ultimately show ?thesis using None Cons by (simp add: no_ws_pair_Cons)
    next
      case (Some p)
      obtain rep n where p: "p = (rep, n)" by (cases p)
      have "no_ws_pair (drop (n - 1) cs)"
        using less.prems Cons by (simp add: no_ws_pair_Cons no_ws_pair_drop)
      then have "no_ws_pair (replace_all m (drop (n - 1) cs))"
        using less.hyps [of "drop (n - 1) cs"] Cons by simp
      with reps [of "c # cs" rep n] Some p Cons show ?thesis
        by (simp add: no_ws_pair_append)
    qed
  qed
qed

lemma replace_all_id:
  "\<forall>k. m (drop k s) = None \<Longrightarrow> replace_all m s = s"
proof (induction s)
  case Nil
  then show ?case by simp
next
  case (Cons c cs)
  from Cons.prems have "m (drop 0 (c # cs)) = None" by blast
  then have 0: "m (c # cs) = None" by simp
  have "\<forall>k. m (drop k cs) = None"
  proof
    fix k from Cons.prems have "m (drop (Suc k) (c # cs)) = None" by blast
    then show "m (drop k cs) = None" by simp
  qed
  with Cons.IH 0 show ?case by simp
qed

lemma replace_all_id_set:
  assumes "\<And>t. set t \<subseteq> set s \<Longrightarrow> m t = None"
  shows "replace_all m s = s"
proof (rule replace_all_id, rule allI)
  fix k show "m (drop k s) = None"
    by (rule assms) (rule set_drop_subset)
qed

lemma replace_all_set:
  assumes reps: "\<And>t rep n. m t = Some (rep, n) \<Longrightarrow> set rep \<subseteq> set t \<union> A"
  shows "set (replace_all m s) \<subseteq> set s \<union> A"
proof (induction "length s" arbitrary: s rule: less_induct)
  case less
  show ?case
  proof (cases s)
    case Nil
    then show ?thesis by simp
  next
    case (Cons c cs)
    show ?thesis
    proof (cases "m (c # cs)")
      case None
      with less.hyps [of cs] Cons show ?thesis by auto
    next
      case (Some p)
      obtain rep n where p: "p = (rep, n)" by (cases p)
      have "set (replace_all m (drop (n - 1) cs)) \<subseteq> set (drop (n - 1) cs) \<union> A"
        using less.hyps [of "drop (n - 1) cs"] Cons by simp
      moreover have "set (drop (n - 1) cs) \<subseteq> set cs" by (rule set_drop_subset)
      moreover have "set rep \<subseteq> set (c # cs) \<union> A" using reps Some p by blast
      ultimately show ?thesis using Some p Cons by auto
    qed
  qed
qed

lemma replace_all_forall:
  assumes reps: "\<And>t rep n. m t = Some (rep, n) \<Longrightarrow> \<forall>x\<in>set rep. Q x"
    and keeps: "\<And>c cs. m (c # cs) = None \<Longrightarrow> Q c"
  shows "\<forall>x\<in>set (replace_all m s). Q x"
proof (induction "length s" arbitrary: s rule: less_induct)
  case less
  show ?case
  proof (cases s)
    case Nil
    then show ?thesis by simp
  next
    case (Cons c cs)
    show ?thesis
    proof (cases "m (c # cs)")
      case None
      with less.hyps [of cs] Cons keeps [of c cs] show ?thesis by auto
    next
      case (Some p)
      obtain rep n where p: "p = (rep, n)" by (cases p)
      have "\<forall>x\<in>set (replace_all m (drop (n - 1) cs)). Q x"
        using less.hyps [of "drop (n - 1) cs"] Cons by simp
      with reps [of "c # cs" rep n] Some p Cons show ?thesis by auto
    qed
  qed
qed

subsection \<open>Collapsing runs of white space\<close>

lemma m_spaces_rep: "m_spaces t = Some (rep, n) \<Longrightarrow> rep = [ch_space] \<and> n = length (takeWhile is_ws t) \<and> 2 \<le> n"
  by (auto simp: m_spaces_def Let_def split: if_splits)

lemma collapse_hd:
  "s \<noteq> [] \<Longrightarrow> \<not> is_ws (hd s) \<Longrightarrow> replace_all m_spaces s \<noteq> [] \<and> hd (replace_all m_spaces s) = hd s"
  by (cases s) (auto simp: m_spaces_def)

lemma collapse_no_ws_pair: "no_ws_pair (replace_all m_spaces s)"
proof (induction "length s" arbitrary: s rule: less_induct)
  case less
  show ?case
  proof (cases s)
    case Nil
    then show ?thesis by simp
  next
    case (Cons c cs)
    show ?thesis
    proof (cases "m_spaces (c # cs)")
      case None
      have tail: "no_ws_pair (replace_all m_spaces cs)" using less.hyps [of cs] Cons by simp
      have "replace_all m_spaces cs = [] \<or> \<not> is_ws (hd (replace_all m_spaces cs))" if "is_ws c"
      proof (cases cs)
        case Nil
        then show ?thesis by simp
      next
        case (Cons d ds)
        with None that have "\<not> is_ws d" by (auto simp: m_spaces_def split: if_splits)
        with Cons collapse_hd [of cs] show ?thesis by simp
      qed
      with tail None Cons show ?thesis by (auto simp: no_ws_pair_Cons)
    next
      case (Some p)
      obtain rep n where p: "p = (rep, n)" by (cases p)
      from m_spaces_rep [of "c # cs" rep n] Some p
      have rep: "rep = [ch_space]" and n: "n = length (takeWhile is_ws (c # cs))" and n2: "2 \<le> n"
        by auto
      from n2 n have c: "is_ws c" by (auto split: if_splits)
      have rest: "drop (n - 1) cs = dropWhile is_ws (c # cs)"
      proof -
        have "dropWhile is_ws (c # cs) = drop n (c # cs)"
          unfolding n by (rule dropWhile_eq_drop)
        also have "\<dots> = drop (n - 1) cs" using n2 by (cases n) auto
        finally show ?thesis by simp
      qed
      let ?r = "dropWhile is_ws (c # cs)"
      have "length ?r < length s" using Cons c by (simp add: length_dropWhile_le le_imp_less_Suc)
      then have tail: "no_ws_pair (replace_all m_spaces ?r)" using less.hyps by simp
      have "replace_all m_spaces ?r = [] \<or> \<not> is_ws (hd (replace_all m_spaces ?r))"
      proof (cases "?r = []")
        case True
        then show ?thesis by simp
      next
        case False
        then have "\<not> is_ws (hd ?r)" by (rule hd_dropWhile)
        with False collapse_hd [of ?r] show ?thesis by simp
      qed
      with tail Some p rep rest Cons show ?thesis by (auto simp: no_ws_pair_Cons)
    qed
  qed
qed

subsection \<open>What the expressions of minifyHTML put in place of a match\<close>

lemma drop_eq_Cons_mem: "drop k s = c # r \<Longrightarrow> c \<in> set s \<and> set r \<subseteq> set s"
proof -
  assume d: "drop k s = c # r"
  have "set (drop k s) \<subseteq> set s" by (rule set_drop_subset)
  with d show ?thesis by auto
qed

lemma starts_with_hd: "starts_with (p # ps) t \<Longrightarrow> p \<in> set t"
  by (cases t) (auto simp: starts_with_def)

lemma upper_is_lt: "upper c = ch_lt \<longleftrightarrow> c = ch_lt"
  by (auto simp: upper_def)

lemma starts_with_ci_lt: "starts_with_ci (ch_lt # ps) t \<Longrightarrow> ch_lt \<in> set t"
  by (cases t) (auto simp: starts_with_ci_def upper_def split: if_splits)

lemma m_comment_rep: "m_comment t = Some (rep, n) \<Longrightarrow> rep = [] \<and> ch_lt \<in> set t"
  by (auto simp: m_comment_def js_def split: if_splits option.splits dest: starts_with_hd)

lemma m_newlines_rep: "m_newlines t = Some (rep, n) \<Longrightarrow> rep = []"
  by (auto simp: m_newlines_def Let_def split: if_splits)

lemma m_newlines_None: "m_newlines (c # cs) = None \<longleftrightarrow> c \<noteq> ch_cr \<and> c \<noteq> ch_lf"
  by (auto simp: m_newlines_def Let_def)

lemma m_tab_rep: "m_tab t = Some (rep, n) \<Longrightarrow> rep = []"
  by (auto simp: m_tab_def split: list.splits if_splits)

lemma m_tab_None: "m_tab (c # cs) = None \<longleftrightarrow> c \<noteq> ch_tab"
  by (auto simp: m_tab_def)

lemma m_between_tags_rep:
  "m_between_tags t = Some (rep, n) \<Longrightarrow> rep = js ''><'' \<and> ch_gt \<in> set t"
  by (auto simp: m_between_tags_def Let_def split: list.splits if_splits)

lemma m_around_rep: "m_around x t = Some (rep, n) \<Longrightarrow> rep = [x] \<and> x \<in> set t"
  by (auto simp: m_around_def Let_def split: list.splits if_splits dest: drop_eq_Cons_mem)

lemma m_css_comment_rep: "m_css_comment t = Some (rep, n) \<Longrightarrow> rep = []"
  by (auto simp: m_css_comment_def split: if_splits option.splits)

lemma m_semi_brace_rep: "m_semi_brace t = Some (rep, n) \<Longrightarrow> rep = [ch_rbrace]"
  by (auto simp: m_semi_brace_def Let_def split: list.splits if_splits)

lemma m_nl_tab_rep: "m_nl_tab t = Some (rep, n) \<Longrightarrow> rep = []"
  by (auto simp: m_nl_tab_def split: list.splits if_splits)

lemma m_trailing_semi_rep: "m_trailing_semi t = Some (rep, n) \<Longrightarrow> rep = []"
  by (auto simp: m_trailing_semi_def split: list.splits if_splits)

lemma m_self_closing_rep:
  "m_self_closing t = Some (rep, n) \<Longrightarrow> rep = js ''/>'' \<and> ch_gt \<in> set t"
proof -
  assume a: "m_self_closing t = Some (rep, n)"
  let ?a = "takeWhile is_ws t"
  from a obtain c r where cr: "drop (length ?a) t = c # r" and c: "c = ch_slash"
    by (auto simp: m_self_closing_def Let_def split: list.splits if_splits)
  let ?b = "takeWhile is_ws r"
  from a cr c obtain g r' where g: "drop (length ?b) r = g # r'" "g = ch_gt" and rep: "rep = js ''/>''"
    by (auto simp: m_self_closing_def Let_def split: list.splits if_splits)
  from drop_eq_Cons_mem [OF g(1)] g(2) have "ch_gt \<in> set r" by simp
  moreover from drop_eq_Cons_mem [OF cr] have "set r \<subseteq> set t" by simp
  ultimately show ?thesis using rep by auto
qed

lemma m_unquote_rep:
  "m_unquote t = Some (rep, n) \<Longrightarrow>
     \<exists>v. rep = ch_eq # v \<and> v \<noteq> [] \<and> (\<forall>c\<in>set v. is_simple c) \<and> set v \<subseteq> set t \<and> ch_eq \<in> set t"
proof -
  assume a: "m_unquote t = Some (rep, n)"
  then obtain q r where t: "t = ch_eq # q # r"
    by (auto simp: m_unquote_def split: list.splits if_splits)
  let ?v = "takeWhile is_simple r"
  from a t have "rep = ch_eq # ?v" "?v \<noteq> []"
    by (auto simp: m_unquote_def Let_def split: list.splits if_splits)
  moreover have "\<forall>c\<in>set ?v. is_simple c" by (auto dest: set_takeWhileD)
  moreover have "set ?v \<subseteq> set t" using t by (auto dest: set_takeWhileD)
  ultimately show ?thesis using t by auto
qed

lemma m_style_tag_rep:
  "m_style_tag t = Some (rep, n) \<Longrightarrow>
     \<exists>css. rep = js ''<style>'' @ minifyCSS css @ js ''</style>'' \<and> set css \<subseteq> set t \<and> ch_lt \<in> set t"
proof -
  assume a: "m_style_tag t = Some (rep, n)"
  then have sw: "starts_with_ci (js ''<style'') t"
    by (auto simp: m_style_tag_def split: if_splits)
  then have lt: "ch_lt \<in> set t" by (auto simp: js_def dest: starts_with_ci_lt)
  let ?t = "drop 6 t"
  let ?a = "takeWhile (\<lambda>c. c \<noteq> ch_gt) ?t"
  from a sw obtain g body where b: "drop (length ?a) ?t = g # body"
    by (auto simp: m_style_tag_def Let_def split: list.splits)
  with a sw obtain k where "rep = js ''<style>'' @ minifyCSS (take k body) @ js ''</style>''"
    by (auto simp: m_style_tag_def Let_def split: option.splits)
  moreover have "set (take k body) \<subseteq> set t"
  proof -
    have "set (take k body) \<subseteq> set body" by (rule set_take_subset)
    also have "\<dots> \<subseteq> set ?t" using drop_eq_Cons_mem [OF b] by simp
    also have "\<dots> \<subseteq> set t" by (rule set_drop_subset)
    finally show ?thesis .
  qed
  ultimately show ?thesis using lt by blast
qed

lemma m_style_attr_rep:
  "m_style_attr t = Some (rep, n) \<Longrightarrow>
     \<exists>v. rep = js ''style='' @ [ch_dquote] @ minifyStyle v @ [ch_dquote] \<and> set v \<subseteq> set t
         \<and> ch_eq \<in> set t"
proof -
  assume a: "m_style_attr t = Some (rep, n)"
  then have sw: "starts_with_ci (js ''style'') t"
    by (auto simp: m_style_attr_def split: if_splits)
  let ?t = "drop 5 t"
  let ?w1 = "takeWhile is_ws ?t"
  from a sw obtain e r where e: "drop (length ?w1) ?t = e # r"
    by (auto simp: m_style_attr_def Let_def split: list.splits)
  with a sw have eq: "e = ch_eq"
    by (auto simp: m_style_attr_def Let_def split: if_splits)
  let ?w2 = "takeWhile is_ws r"
  from a sw e eq obtain q v where q: "drop (length ?w2) r = q # v"
    by (auto simp: m_style_attr_def Let_def split: list.splits)
  let ?val = "takeWhile (\<lambda>c. \<not> is_quote c) v"
  from a sw e eq q have rep: "rep = js ''style='' @ [ch_dquote] @ minifyStyle ?val @ [ch_dquote]"
    by (auto simp: m_style_attr_def Let_def split: list.splits if_splits)
  have r_t: "set r \<subseteq> set t" and e_t: "e \<in> set t"
  proof -
    have "set ?t \<subseteq> set t" by (rule set_drop_subset)
    with e drop_eq_Cons_mem [of "length ?w1" ?t e r] show "set r \<subseteq> set t" "e \<in> set t" by auto
  qed
  have "set ?val \<subseteq> set v" by (auto dest: set_takeWhileD)
  also have "\<dots> \<subseteq> set r" using drop_eq_Cons_mem [OF q] by simp
  finally have "set ?val \<subseteq> set t" using r_t by auto
  with rep e_t eq show ?thesis by blast
qed

subsection \<open>The two callbacks\<close>

lemma replace_first_set:
  assumes reps: "\<And>t rep n. m t = Some (rep, n) \<Longrightarrow> set rep \<subseteq> set t"
  shows "set (replace_first m s) \<subseteq> set s"
proof (induction s)
  case Nil
  then show ?case by simp
next
  case (Cons c cs)
  show ?case
  proof (cases "m (c # cs)")
    case None
    with Cons show ?thesis by auto
  next
    case (Some p)
    obtain rep n where p: "p = (rep, n)" by (cases p)
    have "set (drop (n - 1) cs) \<subseteq> set cs" by (rule set_drop_subset)
    moreover have "set rep \<subseteq> set (c # cs)" using reps Some p by blast
    ultimately show ?thesis using Some p by auto
  qed
qed

lemma clean_js_trim: "clean s \<Longrightarrow> clean (js_trim s)"
  using set_js_trim [of s] by (rule clean_subset)

lemma clean_single: "x \<noteq> ch_lf \<Longrightarrow> x \<noteq> ch_cr \<Longrightarrow> x \<noteq> ch_tab \<Longrightarrow> clean [x]"
  by (simp add: clean_def)

lemma clean_Nil: "clean []"
  by (simp add: clean_def)

lemma clean_collapse: "clean s \<Longrightarrow> clean (replace_all m_spaces s)"
proof (rule replace_all_clean)
  fix t rep n assume "m_spaces t = Some (rep, n)"
  then have "rep = [ch_space]" using m_spaces_rep by blast
  then show "clean rep" by (simp add: clean_single)
qed

lemma clean_around:
  "x \<noteq> ch_lf \<Longrightarrow> x \<noteq> ch_cr \<Longrightarrow> x \<noteq> ch_tab \<Longrightarrow> clean s \<Longrightarrow> clean (replace_all (m_around x) s)"
proof (rule replace_all_clean)
  fix t rep n assume x: "x \<noteq> ch_lf" "x \<noteq> ch_cr" "x \<noteq> ch_tab" and "m_around x t = Some (rep, n)"
  then have "rep = [x]" using m_around_rep by blast
  with x show "clean rep" by (simp add: clean_single)
qed

lemma clean_deleting:
  assumes "\<And>t rep n. m t = Some (rep, n) \<Longrightarrow> rep = []"
  shows "clean s \<Longrightarrow> clean (replace_all m s)"
proof (rule replace_all_clean)
  fix t rep n assume "m t = Some (rep, n)"
  then have "rep = []" by (rule assms)
  then show "clean rep" by (simp add: clean_Nil)
qed

lemma clean_semi_brace: "clean s \<Longrightarrow> clean (replace_all m_semi_brace s)"
proof (rule replace_all_clean)
  fix t rep n assume "m_semi_brace t = Some (rep, n)"
  then have "rep = [ch_rbrace]" by (rule m_semi_brace_rep)
  then show "clean rep" by (simp add: clean_single)
qed

lemma minifyCSS_clean: "clean css \<Longrightarrow> clean (minifyCSS css)"
proof -
  assume c: "clean css"
  have 1: "clean (replace_all m_css_comment css)"
    using c by (rule clean_deleting [rotated]) (rule m_css_comment_rep)
  have 2: "clean (replace_all (m_around ch_lbrace) (replace_all m_css_comment css))"
    by (rule clean_around) (simp_all add: 1)
  have 3: "clean (replace_all (m_around ch_rbrace)
     (replace_all (m_around ch_lbrace) (replace_all m_css_comment css)))"
    by (rule clean_around) (simp_all add: 2)
  have 4: "clean (replace_all (m_around ch_semi) (replace_all (m_around ch_rbrace)
     (replace_all (m_around ch_lbrace) (replace_all m_css_comment css))))"
    by (rule clean_around) (simp_all add: 3)
  have 5: "clean (replace_all (m_around ch_colon) (replace_all (m_around ch_semi)
     (replace_all (m_around ch_rbrace) (replace_all (m_around ch_lbrace)
       (replace_all m_css_comment css)))))"
    by (rule clean_around) (simp_all add: 4)
  have 6: "clean (replace_all (m_around ch_comma) (replace_all (m_around ch_colon)
     (replace_all (m_around ch_semi) (replace_all (m_around ch_rbrace)
       (replace_all (m_around ch_lbrace) (replace_all m_css_comment css))))))"
    by (rule clean_around) (simp_all add: 5)
  have 8: "clean (replace_all m_nl_tab t)" if "clean t" for t
    using that by (rule clean_deleting [rotated]) (rule m_nl_tab_rep)
  show ?thesis
    unfolding minifyCSS_def Let_def
    by (rule clean_js_trim, rule clean_collapse, rule 8, rule clean_semi_brace, rule 6)
qed

lemma minifyCSS_no_ws_pair: "no_ws_pair (minifyCSS css)"
  unfolding minifyCSS_def Let_def by (intro js_trim_no_ws_pair collapse_no_ws_pair)

lemma minifyCSS_trimmed: "trimmed (minifyCSS css)"
  unfolding minifyCSS_def Let_def by (rule js_trim_trimmed)

lemma minifyStyle_clean: "clean v \<Longrightarrow> clean (minifyStyle v)"
proof -
  assume c: "clean v"
  have 3: "clean (replace_first m_trailing_semi t)" if "clean t" for t
  proof -
    have "set (replace_first m_trailing_semi t) \<subseteq> set t"
      by (rule replace_first_set) (auto dest: m_trailing_semi_rep)
    then show ?thesis using that by (rule clean_subset)
  qed
  show ?thesis
    unfolding minifyStyle_def Let_def
    by (intro clean_js_trim clean_collapse 3 clean_around c) simp_all
qed

lemma minifyStyle_no_ws_pair: "no_ws_pair (minifyStyle v)"
  unfolding minifyStyle_def Let_def by (intro js_trim_no_ws_pair collapse_no_ws_pair)

lemma minifyStyle_trimmed: "trimmed (minifyStyle v)"
  unfolding minifyStyle_def Let_def by (rule js_trim_trimmed)

subsection \<open>The replacements of the later steps keep white space apart\<close>

lemma is_simple_not_ws: "is_simple c \<Longrightarrow> \<not> is_ws c"
  unfolding is_simple_def is_ws_def by (elim disjE conjE) simp_all

lemma no_ws_pair_around:
  "\<not> is_ws x \<Longrightarrow> no_ws_pair s \<Longrightarrow> no_ws_pair (replace_all (m_around x) s)"
  by (rule replace_all_no_ws_pair) (auto dest: m_around_rep)

lemma enclosed_no_ws_pair:
  assumes "no_ws_pair a" "no_ws_pair b" "no_ws_pair c" "a \<noteq> []" "c \<noteq> []"
    and "\<not> is_ws (last a)" "\<not> is_ws (hd c)"
  shows "no_ws_pair (a @ b @ c)"
  using assms by (auto simp: no_ws_pair_append)

lemma no_ws_pair_style_tag:
  "no_ws_pair s \<Longrightarrow> no_ws_pair (replace_all m_style_tag s)"
proof (rule replace_all_no_ws_pair)
  fix t rep n assume "m_style_tag t = Some (rep, n)"
  then obtain css where rep: "rep = js ''<style>'' @ minifyCSS css @ js ''</style>''"
    using m_style_tag_rep by blast
  have "no_ws_pair (js ''<style>'' @ minifyCSS css @ js ''</style>'')"
    by (rule enclosed_no_ws_pair) (simp_all add: js_def is_ws_def minifyCSS_no_ws_pair)
  moreover have "hd rep = ch_lt" "last rep = ch_gt" "rep \<noteq> []"
    by (simp_all add: rep js_def)
  ultimately show "rep \<noteq> [] \<and> \<not> is_ws (hd rep) \<and> \<not> is_ws (last rep) \<and> no_ws_pair rep"
    by (simp add: rep is_ws_def)
qed

lemma no_ws_pair_style_attr:
  "no_ws_pair s \<Longrightarrow> no_ws_pair (replace_all m_style_attr s)"
proof (rule replace_all_no_ws_pair)
  fix t rep n assume "m_style_attr t = Some (rep, n)"
  then obtain v where rep: "rep = js ''style='' @ [ch_dquote] @ minifyStyle v @ [ch_dquote]"
    using m_style_attr_rep by blast
  have "no_ws_pair ((js ''style='' @ [ch_dquote]) @ minifyStyle v @ [ch_dquote])"
    by (rule enclosed_no_ws_pair) (simp_all add: js_def is_ws_def minifyStyle_no_ws_pair)
  moreover have "hd rep = 115" "last rep = ch_dquote" "rep \<noteq> []"
    by (simp_all add: rep js_def)
  ultimately show "rep \<noteq> [] \<and> \<not> is_ws (hd rep) \<and> \<not> is_ws (last rep) \<and> no_ws_pair rep"
    by (simp add: rep is_ws_def)
qed

lemma no_ws_pair_unquote:
  "no_ws_pair s \<Longrightarrow> no_ws_pair (replace_all m_unquote s)"
proof (rule replace_all_no_ws_pair)
  fix t rep n assume "m_unquote t = Some (rep, n)"
  then obtain v where rep: "rep = ch_eq # v" and v: "v \<noteq> []" "\<forall>c\<in>set v. is_simple c"
    using m_unquote_rep by blast
  have "\<not> is_ws ch_eq" by (simp add: is_ws_def)
  moreover have "\<forall>c\<in>set v. \<not> is_ws c" using v(2) is_simple_not_ws by blast
  ultimately have all: "\<forall>c\<in>set rep. \<not> is_ws c" by (simp add: rep)
  then have "no_ws_pair rep" by (rule no_ws_pair_all_non_ws)
  moreover have "\<not> is_ws (last rep)" using all rep by (metis last_in_set list.distinct(1))
  moreover have "\<not> is_ws (hd rep)" by (simp add: rep is_ws_def)
  ultimately show "rep \<noteq> [] \<and> \<not> is_ws (hd rep) \<and> \<not> is_ws (last rep) \<and> no_ws_pair rep"
    by (simp add: rep)
qed

lemma no_ws_pair_self_closing:
  "no_ws_pair s \<Longrightarrow> no_ws_pair (replace_all m_self_closing s)"
  by (rule replace_all_no_ws_pair) (auto simp: js_def is_ws_def dest!: m_self_closing_rep)

subsection \<open>The three properties of the output\<close>

lemma minifyHTML_trimmed: "trimmed (minifyHTML x)"
  unfolding minifyHTML_def Let_def by (rule js_trim_trimmed)

lemma minifyHTML_no_ws_pair: "no_ws_pair (minifyHTML x)"
  unfolding minifyHTML_def Let_def
  by (intro js_trim_no_ws_pair no_ws_pair_self_closing no_ws_pair_unquote no_ws_pair_style_attr
      no_ws_pair_style_tag no_ws_pair_around collapse_no_ws_pair) (simp_all add: is_ws_def)

lemma newlines_removed: "\<forall>c\<in>set (replace_all m_newlines s). c \<noteq> ch_cr \<and> c \<noteq> ch_lf"
  by (rule replace_all_forall) (auto dest: m_newlines_rep simp: m_newlines_None)

lemma tabs_removed: "\<forall>c\<in>set (replace_all m_tab s). c \<noteq> ch_tab"
  by (rule replace_all_forall) (auto dest: m_tab_rep simp: m_tab_None)

lemma tabs_removed_set: "set (replace_all m_tab s) \<subseteq> set s"
proof -
  have "set (replace_all m_tab s) \<subseteq> set s \<union> {}"
    by (rule replace_all_set) (auto dest: m_tab_rep)
  then show ?thesis by simp
qed

lemma clean_after_tabs: "clean (replace_all m_tab (replace_all m_newlines s))"
  using newlines_removed [of s] tabs_removed [of "replace_all m_newlines s"]
    tabs_removed_set [of "replace_all m_newlines s"]
  by (auto simp: clean_def)

lemma clean_between_tags: "clean s \<Longrightarrow> clean (replace_all m_between_tags s)"
proof (rule replace_all_clean)
  fix t rep n assume "m_between_tags t = Some (rep, n)"
  then have "rep = js ''><''" using m_between_tags_rep by blast
  then show "clean rep" by (simp add: clean_def js_def)
qed

lemma clean_style_tag: "clean s \<Longrightarrow> clean (replace_all m_style_tag s)"
proof (rule replace_all_clean)
  fix t rep n assume m: "m_style_tag t = Some (rep, n)" and t: "clean t"
  from m obtain css where rep: "rep = js ''<style>'' @ minifyCSS css @ js ''</style>''"
    and css: "set css \<subseteq> set t"
    using m_style_tag_rep by blast
  from css t have "clean css" by (rule clean_subset)
  then have "clean (minifyCSS css)" by (rule minifyCSS_clean)
  then show "clean rep" by (simp add: rep clean_append) (simp add: clean_def js_def)
qed

lemma clean_style_attr: "clean s \<Longrightarrow> clean (replace_all m_style_attr s)"
proof (rule replace_all_clean)
  fix t rep n assume m: "m_style_attr t = Some (rep, n)" and t: "clean t"
  from m obtain v where rep: "rep = js ''style='' @ [ch_dquote] @ minifyStyle v @ [ch_dquote]"
    and v: "set v \<subseteq> set t"
    using m_style_attr_rep by blast
  from v t have "clean v" by (rule clean_subset)
  then have "clean (minifyStyle v)" by (rule minifyStyle_clean)
  then show "clean rep" by (simp add: rep clean_append) (simp add: clean_def js_def)
qed

lemma clean_unquote: "clean s \<Longrightarrow> clean (replace_all m_unquote s)"
proof (rule replace_all_clean)
  fix t rep n assume m: "m_unquote t = Some (rep, n)" and t: "clean t"
  from m obtain v where rep: "rep = ch_eq # v" and v: "set v \<subseteq> set t"
    using m_unquote_rep by blast
  from v t have "clean v" by (rule clean_subset)
  then show "clean rep" by (simp add: rep clean_def)
qed

lemma clean_self_closing: "clean s \<Longrightarrow> clean (replace_all m_self_closing s)"
proof (rule replace_all_clean)
  fix t rep n assume "m_self_closing t = Some (rep, n)"
  then have "rep = js ''/>''" using m_self_closing_rep by blast
  then show "clean rep" by (simp add: clean_def js_def)
qed

lemma minifyHTML_clean: "clean (minifyHTML x)"
  unfolding minifyHTML_def Let_def
  by (intro clean_js_trim clean_self_closing clean_unquote clean_style_attr clean_style_tag
      clean_around clean_collapse clean_between_tags clean_after_tabs) simp_all

lemmas minifyHTML_simps =
  minifyHTML_def js_def Let_def m_comment_def starts_with_def m_newlines_def m_tab_def
  m_between_tags_def js_trim_def is_ws_def m_spaces_def m_around_def m_style_tag_def
  starts_with_ci_def upper_def m_style_attr_def m_unquote_def m_self_closing_def
  is_quote_def is_simple_def minifyCSS_def minifyStyle_def m_css_comment_def
  m_semi_brace_def m_nl_tab_def m_trailing_semi_def

text \<open>
  Claim C8. For every input, the output of minifyHTML contains no line feed, carriage
  return or tab, has no white space at either end, and contains no two consecutive
  spaces.
\<close>

theorem minifyHTML_single_line_minimal:
  "(\<forall>c\<in>set (minifyHTML x). c \<noteq> ch_lf \<and> c \<noteq> ch_cr \<and> c \<noteq> ch_tab)
   \<and> (minifyHTML x \<noteq> [] \<longrightarrow> \<not> is_ws (hd (minifyHTML x)) \<and> \<not> is_ws (last (minifyHTML x)))
   \<and> (\<forall>i. Suc i < length (minifyHTML x) \<longrightarrow>
         \<not> (minifyHTML x ! i = ch_space \<and> minifyHTML x ! Suc i = ch_space))"
proof (intro conjI allI impI)
  show "\<forall>c\<in>set (minifyHTML x). c \<noteq> ch_lf \<and> c \<noteq> ch_cr \<and> c \<noteq> ch_tab"
    using minifyHTML_clean [of x] by (simp add: clean_def)
next
  assume "minifyHTML x \<noteq> []"
  then show "\<not> is_ws (hd (minifyHTML x))" "\<not> is_ws (last (minifyHTML x))"
    using minifyHTML_trimmed [of x] by (simp_all add: trimmed_def)
next
  fix i assume "Suc i < length (minifyHTML x)"
  then have "\<not> (is_ws (minifyHTML x ! i) \<and> is_ws (minifyHTML x ! Suc i))"
    using minifyHTML_no_ws_pair [of x] by (rule no_ws_pair_nth [rotated])
  moreover have "is_ws ch_space" by (simp add: is_ws_def)
  ultimately show "\<not> (minifyHTML x ! i = ch_space \<and> minifyHTML x ! Suc i = ch_space)"
    by auto
qed

text \<open>
  A fragment with a tab, a line break and runs of spaces.
\<close>

theorem minifyHTML_single_line_minimal_witness:
  "minifyHTML ([ch_tab] @ js ''<p  class = \"x\" >  a   b'' @ [ch_cr, ch_lf] @ js '' </p> '')
     = js ''<p class=x>a b</p>''
   \<and> ch_lf \<notin> set (js ''<p class=x>a b</p>'')
   \<and> ch_cr \<notin> set (js ''<p class=x>a b</p>'')
   \<and> ch_tab \<notin> set (js ''<p class=x>a b</p>'')
   \<and> \<not> is_ws (hd (js ''<p class=x>a b</p>''))
   \<and> \<not> is_ws (last (js ''<p class=x>a b</p>''))"
  using minifyHTML_single_line_minimal
    [of "[ch_tab] @ js ''<p  class = \"x\" >  a   b'' @ [ch_cr, ch_lf] @ js '' </p> ''"]
  by (simp add: minifyHTML_simps)

subsection \<open>Strings that minifyHTML leaves as they are\<close>

lemma replace_all_absent:
  assumes "\<And>t rep n. m t = Some (rep, n) \<Longrightarrow> x \<in> set t" and "x \<notin> set s"
  shows "replace_all m s = s"
proof (rule replace_all_id_set)
  fix t assume sub: "set t \<subseteq> set s"
  show "m t = None"
  proof (cases "m t")
    case None
    then show ?thesis .
  next
    case (Some p)
    obtain rep n where "p = (rep, n)" by (cases p)
    with Some assms(1) have "x \<in> set t" by blast
    with sub assms(2) show ?thesis by blast
  qed
qed







text \<open>An input without the three characters has an output without them.\<close>

lemma minifyHTML_plain_text:
  assumes lt: "ch_lt \<notin> set x" and gt: "ch_gt \<notin> set x" and eq: "ch_eq \<notin> set x"
  shows "set (minifyHTML x) \<subseteq> set x \<union> {ch_space}"
proof -
  let ?h2 = "replace_all m_newlines x"
  let ?h3 = "replace_all m_tab ?h2"
  let ?h5 = "js_trim ?h3"
  let ?h6 = "replace_all m_spaces ?h5"
  have 1: "replace_all m_comment x = x"
    using lt by (rule replace_all_absent [rotated]) (simp add: m_comment_rep)
  have "set ?h2 \<subseteq> set x \<union> {}"
    by (rule replace_all_set) (auto dest: m_newlines_rep)
  moreover have "set ?h3 \<subseteq> set ?h2" by (rule tabs_removed_set)
  ultimately have s3: "set ?h3 \<subseteq> set x" by auto
  then have "ch_gt \<notin> set ?h3" using gt by auto
  then have 4: "replace_all m_between_tags ?h3 = ?h3"
    by (rule replace_all_absent [rotated]) (simp add: m_between_tags_rep)
  have s5: "set ?h5 \<subseteq> set x" using set_js_trim [of ?h3] s3 by auto
  have "set ?h6 \<subseteq> set ?h5 \<union> {ch_space}"
    by (rule replace_all_set) (auto dest: m_spaces_rep)
  with s5 have s6: "set ?h6 \<subseteq> set x \<union> {ch_space}" by auto
  with lt gt eq have lt6: "ch_lt \<notin> set ?h6" and gt6: "ch_gt \<notin> set ?h6" and eq6: "ch_eq \<notin> set ?h6"
    by auto
  have 7: "replace_all (m_around c) ?h6 = ?h6" if "c \<notin> set ?h6" for c
    using that by (rule replace_all_absent [rotated]) (simp add: m_around_rep)
  have 10: "replace_all m_style_tag ?h6 = ?h6"
    using lt6 by (rule replace_all_absent [rotated]) (use m_style_tag_rep in blast)
  have 11: "replace_all m_style_attr ?h6 = ?h6"
    using eq6 by (rule replace_all_absent [rotated]) (use m_style_attr_rep in blast)
  have 12: "replace_all m_unquote ?h6 = ?h6"
    using eq6 by (rule replace_all_absent [rotated]) (use m_unquote_rep in blast)
  have 13: "replace_all m_self_closing ?h6 = ?h6"
    using gt6 by (rule replace_all_absent [rotated]) (simp add: m_self_closing_rep)
  have "minifyHTML x = js_trim ?h6"
    unfolding minifyHTML_def Let_def
    by (simp only: 1 4 7 [OF eq6] 7 [OF lt6] 7 [OF gt6] 10 11 12 13)
  then show ?thesis using set_js_trim [of ?h6] s6 by auto
qed




end
